theory Spec2Isabelle
  imports Complex_Main "HOL-Library.Word"
begin

unbundle bit_operations_syntax

section \<open>JavaScript values\<close>

text \<open>
  A JavaScript string is a sequence of UTF-16 code units. Every character the program
  handles lies in the Basic Multilingual Plane, so one character is one code unit and
  \<open>length\<close> is the string's \<open>.length\<close>. A \<open>Uint8Array\<close> is a list of bytes.

  A finite number is modelled by the real it denotes. Where the program computes in
  floating point, every arithmetic operation is the exact operation followed by the
  rounding to double precision, and every store into a \<open>Float32Array\<close> is followed by
  the rounding to single precision. The two roundings are parameters \<open>rd\<close> and \<open>f32\<close>
  of the definitions, and the theorems hold for every pair of functions, so for the two
  roundings of IEEE 754. Comparisons, \<open>Math.max\<close>, \<open>Math.min\<close>, \<open>Math.floor\<close> and
  \<open>Math.round\<close> are exact. Infinities, NaN and the sign of zero are not represented.
  (The character mapper multiplies a single by an index below 128, a product that is
  exact in double precision: it is modelled without a rounding.)
\<close>

type_synonym jsstring = "16 word list"

type_synonym rounding = "real \<Rightarrow> real"

datatype js_error = TypeError | RangeError | IndexSizeError | Error string

text \<open>\<open>String.fromCharCode(n)\<close>: the code unit \<open>n mod 2^16\<close>.\<close>

definition fromCharCode :: "int \<Rightarrow> jsstring" where
  "fromCharCode n = [word_of_int n]"

text \<open>\<open>rows[0]?.length || 0\<close>: the length of the first row, 0 when there is no row.\<close>

definition first_row_length :: "'a list list \<Rightarrow> nat" where
  "first_row_length rows = (case rows of [] \<Rightarrow> 0 | r # _ \<Rightarrow> length r)"

text \<open>
  \<open>row.set(src)\<close> on a typed array: copies \<open>src\<close> to the front of \<open>row\<close>, and throws a
  RangeError when \<open>src\<close> is longer than \<open>row\<close>.
\<close>

definition typed_array_set :: "'a list \<Rightarrow> 'a list \<Rightarrow> js_error + 'a list" where
  "typed_array_set row src =
     (if length row < length src then Inl RangeError
      else Inr (src @ drop (length src) row))"

section \<open>Braille encoding (charsets.js)\<close>

definition BRAILLE_BASE :: int where
  "BRAILLE_BASE = 0x2800"

definition BRAILLE_DOT_BITS :: "nat list list" where
  "BRAILLE_DOT_BITS = [[0, 3], [1, 4], [2, 5], [6, 7]]"

text \<open>
  The body of the two nested loops of \<open>brailleChar\<close>:
  \<open>if (dots[row][col]) code |= 1 << BRAILLE_DOT_BITS[row][col]\<close>, on 32-bit integers.
\<close>

definition braille_cell :: "bool list list \<Rightarrow> nat \<Rightarrow> nat \<Rightarrow> 32 word \<Rightarrow> 32 word" where
  "braille_cell dots row col code =
     (if dots ! row ! col then code OR push_bit (BRAILLE_DOT_BITS ! row ! col) 1 else code)"

definition brailleChar :: "bool list list \<Rightarrow> jsstring" where
  "brailleChar dots =
     (let code = fold (\<lambda>row. fold (braille_cell dots row) [0..<2]) [0..<4] 0
      in fromCharCode (BRAILLE_BASE + sint code))"

type_synonym binary_grid = "8 word list list"

text \<open>
  The padding loop of \<open>brailleFromArray\<close>, over the row indices \<open>0..<newH\<close>: a fresh
  zero row of \<open>newW\<close> bytes, overwritten by \<open>binary[y]\<close> when \<open>y < h\<close>.
\<close>

fun pad_rows :: "binary_grid \<Rightarrow> nat \<Rightarrow> nat \<Rightarrow> nat list \<Rightarrow> js_error + binary_grid" where
  "pad_rows binary h newW [] = Inr []"
| "pad_rows binary h newW (y # ys) =
     (case (if y < h then typed_array_set (replicate newW 0) (binary ! y)
            else Inr (replicate newW 0)) of
        Inl e \<Rightarrow> Inl e
      | Inr row \<Rightarrow>
          (case pad_rows binary h newW ys of
             Inl e \<Rightarrow> Inl e
           | Inr padded \<Rightarrow> Inr (row # padded)))"

text \<open>
  \<open>binary[y][x] > 0\<close>. The row \<open>binary[y]\<close> always exists where the encoder reads it; a
  column past the end of the row reads \<open>undefined\<close>, and \<open>undefined > 0\<close> is false.
\<close>

definition dot :: "binary_grid \<Rightarrow> nat \<Rightarrow> nat \<Rightarrow> bool" where
  "dot binary y x = (x < length (binary ! y) \<and> 0 < binary ! y ! x)"

definition block_dots :: "binary_grid \<Rightarrow> nat \<Rightarrow> nat \<Rightarrow> bool list list" where
  "block_dots binary y x =
     [[dot binary y x, dot binary y (x + 1)],
      [dot binary (y + 1) x, dot binary (y + 1) (x + 1)],
      [dot binary (y + 2) x, dot binary (y + 2) (x + 1)],
      [dot binary (y + 3) x, dot binary (y + 3) (x + 1)]]"

text \<open>The loop \<open>for (x = 0; x < w; x += 2)\<close>, with the line built so far.\<close>

function braille_line :: "binary_grid \<Rightarrow> nat \<Rightarrow> nat \<Rightarrow> nat \<Rightarrow> jsstring \<Rightarrow> jsstring" where
  "braille_line binary w y x lineChars =
     (if x < w
      then braille_line binary w y (x + 2) (lineChars @ brailleChar (block_dots binary y x))
      else lineChars)"
  by pat_completeness auto
termination
  by (relation "measure (\<lambda>(binary, w, y, x, lineChars). w - x)") auto

text \<open>The loop \<open>for (y = 0; y < h; y += 4)\<close>, with the lines pushed so far.\<close>

function braille_lines ::
  "binary_grid \<Rightarrow> nat \<Rightarrow> nat \<Rightarrow> nat \<Rightarrow> jsstring list \<Rightarrow> jsstring list" where
  "braille_lines binary h w y lines =
     (if y < h
      then braille_lines binary h w (y + 4) (lines @ [braille_line binary w y 0 []])
      else lines)"
  by pat_completeness auto
termination
  by (relation "measure (\<lambda>(binary, h, w, y, lines). h - y)") auto

declare braille_line.simps [simp del] braille_lines.simps [simp del]

text \<open>
  \<open>padH = (4 - (h % 4)) % 4\<close> and \<open>padW = (2 - (w % 2)) % 2\<close>: the remainders are below 4
  and 2, so the differences are positive and the natural numbers compute what the
  JavaScript numbers do.
\<close>

definition brailleFromArray :: "binary_grid \<Rightarrow> js_error + jsstring list" where
  "brailleFromArray binary =
     (let h = length binary;
          w = first_row_length binary;
          padH = (4 - h mod 4) mod 4;
          padW = (2 - w mod 2) mod 2
      in if padH > 0 \<or> padW > 0 then
           (let newH = h + padH;
                newW = w + padW
            in case pad_rows binary h newW [0..<newH] of
                 Inl e \<Rightarrow> Inl e
               | Inr padded \<Rightarrow> Inr (braille_lines padded newH newW 0 []))
         else Inr (braille_lines binary h w 0 []))"

text \<open>
  The padding as the specification words it: zero columns appended on the right of
  every row, zero rows appended at the bottom. Used only to state the padding theorem.
\<close>

definition pad_bottom_right :: "binary_grid \<Rightarrow> nat \<Rightarrow> nat \<Rightarrow> binary_grid" where
  "pad_bottom_right binary padH padW =
     map (\<lambda>row. row @ replicate padW 0) binary
       @ replicate padH (replicate (first_row_length binary + padW) 0)"

section \<open>Character ramps (charsets.js)\<close>

text \<open>
  The ramps, dark to light, as code units: \<open>simple\<close> is the ten characters
  \<open>" .:-=+*#%@"\<close>, \<open>detailed\<close> has seventy, \<open>blocks\<close> is a space and U+2581..U+2588,
  \<open>braille\<close> is the placeholder U+2800 U+2801.
\<close>

definition CHARSETS :: "string \<Rightarrow> jsstring option" where
  "CHARSETS = map_of
     [(''simple'', [32, 46, 58, 45, 61, 43, 42, 35, 37, 64]),
      (''detailed'',
         [32, 46, 96, 39, 94, 34, 44, 58, 59, 73, 108, 33, 105, 62, 60, 126, 43, 95, 45, 63,
          93, 91, 125, 123, 49, 41, 40, 124, 92, 47, 116, 102, 106, 114, 120, 110, 117, 118,
          99, 122, 88, 89, 85, 74, 67, 76, 81, 48, 79, 90, 109, 119, 113, 112, 100, 98, 107,
          104, 97, 111, 42, 35, 77, 87, 38, 56, 37, 66, 64, 36]),
      (''blocks'', [0x20, 0x2581, 0x2582, 0x2583, 0x2584, 0x2585, 0x2586, 0x2587, 0x2588]),
      (''braille'', [0x2800, 0x2801])]"

text \<open>
  \<open>chars[idx]\<close> appended to a string: the code unit at \<open>idx\<close>, and the text
  \<open>undefined\<close> when \<open>idx\<close> is not an index of \<open>chars\<close>.
\<close>

definition char_at :: "jsstring \<Rightarrow> int \<Rightarrow> jsstring" where
  "char_at chars idx =
     (if 0 \<le> idx \<and> idx < int (length chars) then [chars ! nat idx]
      else map of_char ''undefined'')"

text \<open>The inner loop of \<open>mapArrayToChars\<close> over one row, from the empty line.\<close>

definition map_row :: "jsstring \<Rightarrow> int \<Rightarrow> real list \<Rightarrow> jsstring" where
  "map_row chars maxIdx row =
     fold (\<lambda>v line.
             (let idx = \<lfloor>v * of_int maxIdx\<rfloor>;
                  idx = max 0 (min idx maxIdx)
              in line @ char_at chars idx))
          row []"

text \<open>
  \<open>CHARSETS[charset]\<close> is \<open>undefined\<close> for a name that is not a key, and reading
  \<open>.length\<close> of it throws a TypeError. (The names every object inherits, such as
  \<open>toString\<close>, are not represented: under them JavaScript finds a function, which is
  not a ramp.)
\<close>

definition mapArrayToChars :: "string \<Rightarrow> real list list \<Rightarrow> js_error + jsstring list" where
  "mapArrayToChars charset luminanceRows =
     (case CHARSETS charset of
        None \<Rightarrow> Inl TypeError
      | Some chars \<Rightarrow>
          (let maxIdx = int (length chars) - 1
           in Inr (fold (\<lambda>row lines. lines @ [map_row chars maxIdx row]) luminanceRows [])))"

section \<open>Floyd-Steinberg error diffusion (dither.js)\<close>

type_synonym grid = "real list list"

text \<open>\<open>Math.max(0.0, Math.min(1.0, v))\<close>: exact, no rounding.\<close>

definition clamp01 :: "real \<Rightarrow> real" where
  "clamp01 v = max 0 (min 1 v)"

text \<open>
  \<open>Math.round\<close>: the nearest integer, a tie going up. The result is an integer, so it is
  a double and no rounding follows.
\<close>

definition js_round :: "real \<Rightarrow> real" where
  "js_round v = of_int \<lfloor>v + 1 / 2\<rfloor>"

text \<open>
  \<open>img[y][x] = v\<close> and \<open>img[y][x] += d\<close> on rows that are \<open>Float32Array\<close>s: the stored
  value is rounded to single precision, and the sum of \<open>+=\<close> is a double sum first. A
  write past the end of a typed array is ignored, as a list update past the end is. The
  loops below read and write cells with \<open>y < h\<close> and \<open>x < w\<close> only, which are cells of the
  grid when every row has the length \<open>w\<close> of the first one; on a ragged grid JavaScript
  would read \<open>undefined\<close> where a row is shorter, which this model does not represent.
\<close>

definition set_cell :: "rounding \<Rightarrow> grid \<Rightarrow> nat \<Rightarrow> nat \<Rightarrow> real \<Rightarrow> grid" where
  "set_cell f32 img y x v = img[y := (img ! y)[x := f32 v]]"

definition add_cell ::
  "rounding \<Rightarrow> rounding \<Rightarrow> grid \<Rightarrow> nat \<Rightarrow> nat \<Rightarrow> real \<Rightarrow> grid" where
  "add_cell rd f32 img y x d = img[y := (img ! y)[x := f32 (rd (img ! y ! x + d))]]"

text \<open>
  The body of the inner loop of \<open>floydSteinberg\<close>, at the cell \<open>(y, x)\<close>. The error is
  taken from the double \<open>newVal\<close>, not from the single stored in the cell.
\<close>

definition fs_cell ::
  "rounding \<Rightarrow> rounding \<Rightarrow> real \<Rightarrow> nat \<Rightarrow> nat \<Rightarrow> nat \<Rightarrow> nat \<Rightarrow> grid \<Rightarrow> grid" where
  "fs_cell rd f32 step h w y x img =
     (let old = img ! y ! x;
          newVal = rd (js_round (rd (old / step)) * step);
          newVal = max 0 (min 1 newVal);
          img = set_cell f32 img y x newVal;
          err = rd (old - newVal);
          img = (if x + 1 < w then add_cell rd f32 img y (x + 1) (rd (err * rd (7 / 16)))
                 else img)
      in if y + 1 < h then
           (let img = (if int x - 1 \<ge> 0
                       then add_cell rd f32 img (y + 1) (x - 1) (rd (err * rd (3 / 16)))
                       else img);
                img = add_cell rd f32 img (y + 1) x (rd (err * rd (5 / 16)))
            in if x + 1 < w then add_cell rd f32 img (y + 1) (x + 1) (rd (err * rd (1 / 16)))
               else img)
         else img)"

text \<open>The loops \<open>for (x = 0; x < w; x++)\<close> and \<open>for (y = 0; y < h; y++)\<close> of the pass.\<close>

function fs_row ::
  "rounding \<Rightarrow> rounding \<Rightarrow> real \<Rightarrow> nat \<Rightarrow> nat \<Rightarrow> nat \<Rightarrow> nat \<Rightarrow> grid \<Rightarrow> grid" where
  "fs_row rd f32 step h w y x img =
     (if x < w then fs_row rd f32 step h w y (x + 1) (fs_cell rd f32 step h w y x img)
      else img)"
  by pat_completeness auto
termination
  by (relation "measure (\<lambda>(rd, f32, step, h, w, y, x, img). w - x)") auto

function fs_rows ::
  "rounding \<Rightarrow> rounding \<Rightarrow> real \<Rightarrow> nat \<Rightarrow> nat \<Rightarrow> nat \<Rightarrow> grid \<Rightarrow> grid" where
  "fs_rows rd f32 step h w y img =
     (if y < h then fs_rows rd f32 step h w (y + 1) (fs_row rd f32 step h w y 0 img)
      else img)"
  by pat_completeness auto
termination
  by (relation "measure (\<lambda>(rd, f32, step, h, w, y, img). h - y)") auto

text \<open>The two loops of the final clamp.\<close>

function clamp_row :: "rounding \<Rightarrow> nat \<Rightarrow> nat \<Rightarrow> nat \<Rightarrow> grid \<Rightarrow> grid" where
  "clamp_row f32 w y x img =
     (if x < w
      then clamp_row f32 w y (x + 1) (set_cell f32 img y x (max 0 (min 1 (img ! y ! x))))
      else img)"
  by pat_completeness auto
termination
  by (relation "measure (\<lambda>(f32, w, y, x, img). w - x)") auto

function clamp_rows :: "rounding \<Rightarrow> nat \<Rightarrow> nat \<Rightarrow> nat \<Rightarrow> grid \<Rightarrow> grid" where
  "clamp_rows f32 h w y img =
     (if y < h then clamp_rows f32 h w (y + 1) (clamp_row f32 w y 0 img) else img)"
  by pat_completeness auto
termination
  by (relation "measure (\<lambda>(f32, h, w, y, img). h - y)") auto

declare fs_row.simps [simp del] fs_rows.simps [simp del]
  clamp_row.simps [simp del] clamp_rows.simps [simp del]

text \<open>
  \<open>floydSteinberg(gray, levels)\<close>. The copy \<open>gray.map(row => new Float32Array(row))\<close>
  rounds every cell to single precision (it changes nothing when \<open>gray\<close> holds
  \<open>Float32Array\<close>s already). (A caller that leaves \<open>levels\<close> out gets 2.) The function has
  no \<open>throw\<close> and calls nothing that throws on a grid of numbers, whatever \<open>levels\<close> is:
  the model returns a grid, not a result that might be an error.
\<close>

definition floydSteinberg :: "rounding \<Rightarrow> rounding \<Rightarrow> grid \<Rightarrow> real \<Rightarrow> grid" where
  "floydSteinberg rd f32 gray levels =
     (let h = length gray;
          w = first_row_length gray;
          img = map (map f32) gray;
          step = (if levels > 1 then rd (1 / rd (levels - 1)) else 1);
          img = fs_rows rd f32 step h w 0 img;
          img = clamp_rows f32 h w 0 img
      in img)"

text \<open>
  The error diffusion as the specification words it, every operation read as the
  floating-point one: one step per cell, the four neighbours each guarded by its own
  bounds test, the cells taken in raster order over a working copy, and a clamp of every
  cell at the end. The weights 7/16, 3/16, 5/16 and 1/16 are read as one number each.
  Used only to state the refinement theorem.
\<close>

definition diffuse_cell ::
  "rounding \<Rightarrow> rounding \<Rightarrow> real \<Rightarrow> nat \<Rightarrow> nat \<Rightarrow> nat \<times> nat \<Rightarrow> grid \<Rightarrow> grid" where
  "diffuse_cell rd f32 step h w c grid =
     (let y = fst c; x = snd c;
          old = grid ! y ! x;
          quantized = clamp01 (rd (js_round (rd (old / step)) * step));
          grid = set_cell f32 grid y x quantized;
          err = rd (old - quantized);
          grid = (if x + 1 < w
                  then add_cell rd f32 grid y (x + 1) (rd (err * rd (7 / 16))) else grid);
          grid = (if y + 1 < h \<and> 1 \<le> x
                  then add_cell rd f32 grid (y + 1) (x - 1) (rd (err * rd (3 / 16))) else grid);
          grid = (if y + 1 < h
                  then add_cell rd f32 grid (y + 1) x (rd (err * rd (5 / 16))) else grid);
          grid = (if y + 1 < h \<and> x + 1 < w
                  then add_cell rd f32 grid (y + 1) (x + 1) (rd (err * rd (1 / 16))) else grid)
      in grid)"

definition raster_order :: "nat \<Rightarrow> nat \<Rightarrow> (nat \<times> nat) list" where
  "raster_order h w = concat (map (\<lambda>y. map (\<lambda>x. (y, x)) [0..<w]) [0..<h])"

definition diffuse :: "rounding \<Rightarrow> rounding \<Rightarrow> grid \<Rightarrow> real \<Rightarrow> grid" where
  "diffuse rd f32 grid levels =
     (let h = length grid;
          w = first_row_length grid;
          step = (if levels > 1 then rd (1 / rd (levels - 1)) else 1);
          copy = map (map f32) grid
      in map (map (\<lambda>v. f32 (clamp01 v)))
           (fold (diffuse_cell rd f32 step h w) (raster_order h w) copy))"

text \<open>
  What the theorems on ranges use of the rounding to single precision: it is monotone
  and exact at 0 and 1, as rounding to nearest is.
\<close>

definition rounding_ok :: "rounding \<Rightarrow> bool" where
  "rounding_ok f = (mono f \<and> f 0 = 0 \<and> f 1 = 1)"

text \<open>The rounding that changes nothing, for inputs on which every operation is exact.\<close>

definition exact_rounding :: rounding where
  "exact_rounding v = v"

section \<open>Tone adjustment (processor.js)\<close>

text \<open>
  An \<open>ImageData\<close>: \<open>data\<close> holds four bytes (red, green, blue, alpha) per pixel, row by
  row. The platform keeps \<open>data.length = 4 * width * height\<close>, so the indices
  \<open>toGrayscale\<close> reads are indices of \<open>data\<close>.
\<close>

record imageData =
  width :: nat
  height :: nat
  data :: "8 word list"

text \<open>\<open>data[i]\<close> as a number.\<close>

definition byte :: "imageData \<Rightarrow> nat \<Rightarrow> real" where
  "byte imageData i = real (unat (data imageData ! i))"

text \<open>
  The body of the inner loop of \<open>toGrayscale\<close>: the double \<open>lum\<close>. The literals
  \<open>0.299\<close>, \<open>0.587\<close> and \<open>0.114\<close> are the doubles nearest to them; the products are
  summed from the left and the sum is divided by 255.
\<close>

definition luminance :: "rounding \<Rightarrow> imageData \<Rightarrow> nat \<Rightarrow> nat \<Rightarrow> real" where
  "luminance rd imageData y x =
     (let i = (y * width imageData + x) * 4
      in rd (rd (rd (rd (rd 0.299 * byte imageData i) + rd (rd 0.587 * byte imageData (i + 1)))
                 + rd (rd 0.114 * byte imageData (i + 2)))
             / 255))"

text \<open>
  The loop over \<open>x\<close> fills the fresh row \<open>new Float32Array(width)\<close>, each store rounding
  to single precision; the loop over \<open>y\<close> pushes the rows.
\<close>

function gray_row ::
  "rounding \<Rightarrow> rounding \<Rightarrow> imageData \<Rightarrow> nat \<Rightarrow> nat \<Rightarrow> real list \<Rightarrow> real list" where
  "gray_row rd f32 imageData y x row =
     (if x < width imageData
      then gray_row rd f32 imageData y (x + 1) (row[x := f32 (luminance rd imageData y x)])
      else row)"
  by pat_completeness auto
termination
  by (relation "measure (\<lambda>(rd, f32, imageData, y, x, row). width imageData - x)") auto

function gray_rows :: "rounding \<Rightarrow> rounding \<Rightarrow> imageData \<Rightarrow> nat \<Rightarrow> grid \<Rightarrow> grid" where
  "gray_rows rd f32 imageData y rows =
     (if y < height imageData
      then gray_rows rd f32 imageData (y + 1)
             (rows @ [gray_row rd f32 imageData y 0 (replicate (width imageData) 0)])
      else rows)"
  by pat_completeness auto
termination
  by (relation "measure (\<lambda>(rd, f32, imageData, y, rows). height imageData - y)") auto

declare gray_row.simps [simp del] gray_rows.simps [simp del]

definition toGrayscale :: "rounding \<Rightarrow> rounding \<Rightarrow> imageData \<Rightarrow> grid" where
  "toGrayscale rd f32 imageData = gray_rows rd f32 imageData 0 []"

text \<open>
  The body of the inner loop of \<open>adjustBrightnessContrast\<close>: the double that is stored
  back in \<open>result[y][x]\<close>, from the value \<open>v\<close> read there.
\<close>

definition adjust_cell :: "rounding \<Rightarrow> real \<Rightarrow> real \<Rightarrow> real \<Rightarrow> real" where
  "adjust_cell rd brightness contrast v =
     (let val = v;
          val = (if brightness \<noteq> 0 then rd (val + rd (brightness / 100)) else val);
          val = (if contrast \<noteq> 100
                 then (let factor = rd (contrast / 100)
                       in rd (rd (rd (val - 0.5) * factor) + 0.5))
                 else val)
      in max 0 (min 1 val))"

function adjust_row ::
  "rounding \<Rightarrow> rounding \<Rightarrow> real \<Rightarrow> real \<Rightarrow> nat \<Rightarrow> nat \<Rightarrow> nat \<Rightarrow> grid \<Rightarrow> grid" where
  "adjust_row rd f32 brightness contrast w y x result =
     (if x < w
      then adjust_row rd f32 brightness contrast w y (x + 1)
             (set_cell f32 result y x (adjust_cell rd brightness contrast (result ! y ! x)))
      else result)"
  by pat_completeness auto
termination
  by (relation "measure (\<lambda>(rd, f32, brightness, contrast, w, y, x, result). w - x)") auto

function adjust_rows ::
  "rounding \<Rightarrow> rounding \<Rightarrow> real \<Rightarrow> real \<Rightarrow> nat \<Rightarrow> nat \<Rightarrow> nat \<Rightarrow> grid \<Rightarrow> grid" where
  "adjust_rows rd f32 brightness contrast h w y result =
     (if y < h
      then adjust_rows rd f32 brightness contrast h w (y + 1)
             (adjust_row rd f32 brightness contrast w y 0 result)
      else result)"
  by pat_completeness auto
termination
  by (relation "measure (\<lambda>(rd, f32, brightness, contrast, h, w, y, result). h - y)") auto

declare adjust_row.simps [simp del] adjust_rows.simps [simp del]

text \<open>
  \<open>adjustBrightnessContrast(gray, brightness, contrast)\<close>; \<open>result\<close> is the copy
  \<open>gray.map(row => new Float32Array(row))\<close>.
\<close>

definition adjustBrightnessContrast ::
  "rounding \<Rightarrow> rounding \<Rightarrow> grid \<Rightarrow> real \<Rightarrow> real \<Rightarrow> grid" where
  "adjustBrightnessContrast rd f32 gray brightness contrast =
     (let h = length gray;
          w = first_row_length gray;
          result = map (map f32) gray
      in adjust_rows rd f32 brightness contrast h w 0 result)"

text \<open>
  The adjustment of one cell as the specification words it, every operation read as the
  floating-point one: brightness first (skipped at 0), then contrast (skipped at 100),
  then the clamp. Used only to state the theorem.
\<close>

definition tone_curve :: "rounding \<Rightarrow> real \<Rightarrow> real \<Rightarrow> real \<Rightarrow> real" where
  "tone_curve rd brightness contrast v =
     (let v' = (if brightness = 0 then v else rd (v + rd (brightness / 100)));
          v'' = (if contrast = 100 then v'
                 else rd (rd (rd (v' - 0.5) * rd (contrast / 100)) + 0.5))
      in clamp01 v'')"

section \<open>GIF frame compositor (gif-parser.js)\<close>

subsection \<open>The canvas\<close>

text \<open>
  Modelled from the spec: the canvas 2D context (\<open>createImageData\<close>, \<open>putImageData\<close>,
  \<open>drawImage\<close>, \<open>getImageData\<close>, \<open>clearRect\<close>) is the browser's and is not part of the
  repository. A canvas is modelled by its bitmap, an \<open>ImageData\<close> of its own size holding
  straight RGBA bytes; the operations below do to that bitmap what section 4.1 of the
  specification says of them: a capture is a copy of the canvas, clearing sets the
  pixels of the rectangle to transparent zero and leaves the others, restoring writes
  the pixels of the snapshot. How one patch pixel is composited over one canvas pixel
  is left to a parameter \<open>blend\<close> of \<open>drawImage\<close>.
\<close>

type_synonym rgba = "8 word \<times> 8 word \<times> 8 word \<times> 8 word"

definition pixel :: "imageData \<Rightarrow> nat \<Rightarrow> nat \<Rightarrow> rgba" where
  "pixel img x y =
     (let i = (y * width img + x) * 4
      in (data img ! i, data img ! (i + 1), data img ! (i + 2), data img ! (i + 3)))"

definition channel :: "rgba \<Rightarrow> nat \<Rightarrow> 8 word" where
  "channel p k = (case p of (r, g, b, a) \<Rightarrow> [r, g, b, a] ! k)"

definition in_rect :: "int \<Rightarrow> int \<Rightarrow> nat \<Rightarrow> nat \<Rightarrow> nat \<Rightarrow> nat \<Rightarrow> bool" where
  "in_rect rx ry rw rh x y =
     (rx \<le> int x \<and> int x < rx + int rw \<and> ry \<le> int y \<and> int y < ry + int rh)"

text \<open>
  A new bitmap from an old one, byte by byte: the byte \<open>i\<close> belongs to the channel
  \<open>i mod 4\<close> of the pixel \<open>i div 4\<close>, at column \<open>(i div 4) mod width\<close> of row
  \<open>(i div 4) div width\<close>.
\<close>

definition map_bitmap :: "(nat \<Rightarrow> nat \<Rightarrow> nat \<Rightarrow> 8 word \<Rightarrow> 8 word) \<Rightarrow> imageData \<Rightarrow> imageData" where
  "map_bitmap f canvas =
     canvas\<lparr>data :=
       map (\<lambda>i. f ((i div 4) mod width canvas) ((i div 4) div width canvas) (i mod 4)
                  (data canvas ! i))
           [0..<length (data canvas)]\<rparr>"

text \<open>A canvas element with \<open>width\<close> and \<open>height\<close> set: transparent black.\<close>

definition createCanvas :: "nat \<Rightarrow> nat \<Rightarrow> imageData" where
  "createCanvas w h = \<lparr>width = w, height = h, data = replicate (4 * w * h) 0\<rparr>"

text \<open>\<open>ctx.createImageData(sw, sh)\<close> throws an IndexSizeError when a size is zero.\<close>

definition createImageData :: "nat \<Rightarrow> nat \<Rightarrow> js_error + imageData" where
  "createImageData sw sh =
     (if sw = 0 \<or> sh = 0 then Inl IndexSizeError
      else Inr \<lparr>width = sw, height = sh, data = replicate (4 * sw * sh) 0\<rparr>)"

text \<open>\<open>ctx.putImageData(img, 0, 0)\<close>: the pixels of \<open>img\<close> replace those under them.\<close>

definition putImageData :: "imageData \<Rightarrow> imageData \<Rightarrow> imageData" where
  "putImageData img canvas =
     map_bitmap (\<lambda>x y k old.
        if x < width img \<and> y < height img then data img ! ((y * width img + x) * 4 + k)
        else old) canvas"

text \<open>\<open>ctx.drawImage(src, dx, dy)\<close>: every pixel of \<open>src\<close> composited over the one under it.\<close>

definition drawImage ::
  "(rgba \<Rightarrow> rgba \<Rightarrow> rgba) \<Rightarrow> imageData \<Rightarrow> int \<Rightarrow> int \<Rightarrow> imageData \<Rightarrow> imageData" where
  "drawImage blend src dx dy canvas =
     map_bitmap (\<lambda>x y k old.
        if in_rect dx dy (width src) (height src) x y
        then channel (blend (pixel src (nat (int x - dx)) (nat (int y - dy))) (pixel canvas x y)) k
        else old) canvas"

text \<open>
  \<open>ctx.getImageData(0, 0, width, height)\<close> with the canvas's own size, as
  \<open>buildFullFrames\<close> calls it: a copy of the bitmap, an IndexSizeError when a size is
  zero.
\<close>

definition getImageData :: "imageData \<Rightarrow> js_error + imageData" where
  "getImageData canvas =
     (if width canvas = 0 \<or> height canvas = 0 then Inl IndexSizeError else Inr canvas)"

text \<open>\<open>ctx.clearRect(rx, ry, rw, rh)\<close>.\<close>

definition clearRect :: "int \<Rightarrow> int \<Rightarrow> nat \<Rightarrow> nat \<Rightarrow> imageData \<Rightarrow> imageData" where
  "clearRect rx ry rw rh canvas =
     map_bitmap (\<lambda>x y k old. if in_rect rx ry rw rh x y then 0 else old) canvas"

text \<open>
  Modelled from the spec: the compositing of one patch pixel over one canvas pixel as
  section 4.1 words it, a fully transparent patch pixel leaving the canvas pixel and
  any other overwriting it. It instantiates \<open>blend\<close> at concrete inputs only.
\<close>

definition spec_blend :: "rgba \<Rightarrow> rgba \<Rightarrow> rgba" where
  "spec_blend src dst = (case src of (r, g, b, a) \<Rightarrow> if a = 0 then dst else src)"

subsection \<open>buildFullFrames\<close>

text \<open>
  A raw frame as gifuct-js delivers it. \<open>delay\<close> and \<open>disposalType\<close> are \<open>undefined\<close>
  (here \<open>None\<close>) for a frame without a graphic control extension.
\<close>

record frame_dims =
  dims_left :: int
  dims_top :: int
  dims_width :: nat
  dims_height :: nat

record rawFrame =
  dims :: frame_dims
  patch :: "8 word list"
  delay :: "int option"
  disposalType :: "nat option"

record fullFrame =
  frame_imageData :: imageData
  frame_delay :: int

record compositor =
  canvas :: imageData
  previousImageData :: "imageData option"
  fullFrames :: "fullFrame list"

text \<open>\<open>delay || 100\<close>: 100 for \<open>undefined\<close> and for 0.\<close>

definition delay_or_default :: "int option \<Rightarrow> int" where
  "delay_or_default d = (case d of None \<Rightarrow> 100 | Some n \<Rightarrow> if n = 0 then 100 else n)"

text \<open>
  Lines 51 to 61 of the loop body: the patch canvas, its image data filled from
  \<open>patch\<close>, and the patch drawn on the main canvas at \<open>(dims.left, dims.top)\<close>.
\<close>

definition draw_patch ::
  "(rgba \<Rightarrow> rgba \<Rightarrow> rgba) \<Rightarrow> rawFrame \<Rightarrow> imageData \<Rightarrow> js_error + imageData" where
  "draw_patch blend frame cv =
     (let d = dims frame;
          patchCanvas = createCanvas (dims_width d) (dims_height d)
      in case createImageData (dims_width d) (dims_height d) of
           Inl e \<Rightarrow> Inl e
         | Inr patchImageData \<Rightarrow>
             (case typed_array_set (data patchImageData) (patch frame) of
                Inl e \<Rightarrow> Inl e
              | Inr bytes \<Rightarrow>
                  (let patchCanvas = putImageData (patchImageData\<lparr>data := bytes\<rparr>) patchCanvas
                   in Inr (drawImage blend patchCanvas (dims_left d) (dims_top d) cv))))"

text \<open>
  Lines 70 to 82: the disposal, on the canvas \<open>cv\<close> and the snapshot
  \<open>previousImageData\<close>. The last branch takes every \<open>disposalType\<close> other than 2 and 3,
  \<open>undefined\<close> included.
\<close>

definition dispose :: "rawFrame \<Rightarrow> imageData \<Rightarrow> imageData option \<Rightarrow> imageData \<times> imageData option" where
  "dispose frame cv prev =
     (let d = dims frame
      in if disposalType frame = Some 2 then
           (clearRect (dims_left d) (dims_top d) (dims_width d) (dims_height d) cv, prev)
         else if disposalType frame = Some 3 then
           (case prev of
              Some previous \<Rightarrow> (putImageData previous cv, prev)
            | None \<Rightarrow> (cv, prev))
         else (cv, Some cv))"

text \<open>One iteration of \<open>for (const frame of rawFrames)\<close>: draw, capture, dispose.\<close>

definition frame_step ::
  "(rgba \<Rightarrow> rgba \<Rightarrow> rgba) \<Rightarrow> rawFrame \<Rightarrow> compositor \<Rightarrow> js_error + compositor" where
  "frame_step blend frame s =
     (case draw_patch blend frame (canvas s) of
        Inl e \<Rightarrow> Inl e
      | Inr drawn \<Rightarrow>
          (case getImageData drawn of
             Inl e \<Rightarrow> Inl e
           | Inr fullImageData \<Rightarrow>
               (let frames = fullFrames s @
                      [\<lparr>frame_imageData = fullImageData,
                        frame_delay = delay_or_default (delay frame)\<rparr>];
                    (cv, prev) = dispose frame drawn (previousImageData s)
                in Inr \<lparr>canvas = cv, previousImageData = prev, fullFrames = frames\<rparr>)))"

fun composite_loop ::
  "(rgba \<Rightarrow> rgba \<Rightarrow> rgba) \<Rightarrow> rawFrame list \<Rightarrow> compositor \<Rightarrow> js_error + compositor" where
  "composite_loop blend [] s = Inr s"
| "composite_loop blend (frame # rest) s =
     (case frame_step blend frame s of
        Inl e \<Rightarrow> Inl e
      | Inr s' \<Rightarrow> composite_loop blend rest s')"

text \<open>The state before the loop: a fresh canvas, no snapshot, no frame.\<close>

definition initial :: "nat \<Rightarrow> nat \<Rightarrow> compositor" where
  "initial w h = \<lparr>canvas = createCanvas w h, previousImageData = None, fullFrames = []\<rparr>"

definition buildFullFrames ::
  "(rgba \<Rightarrow> rgba \<Rightarrow> rgba) \<Rightarrow> rawFrame list \<Rightarrow> nat \<Rightarrow> nat \<Rightarrow> js_error + fullFrame list" where
  "buildFullFrames blend rawFrames w h =
     (case composite_loop blend rawFrames (initial w h) of
        Inl e \<Rightarrow> Inl e
      | Inr s \<Rightarrow> Inr (fullFrames s))"

subsection \<open>parseGifFromBuffer\<close>

text \<open>
  \<open>parseGifBuffer\<close> wraps the decoder of gifuct-js, which is not part of the repository:
  it is a parameter here.
\<close>

record parsedGif =
  frames :: "fullFrame list"
  gif_width :: nat
  gif_height :: nat

definition parseGifFromBuffer ::
  "('buffer \<Rightarrow> rawFrame list) \<Rightarrow> (rgba \<Rightarrow> rgba \<Rightarrow> rgba) \<Rightarrow> 'buffer \<Rightarrow> js_error + parsedGif" where
  "parseGifFromBuffer parseGifBuffer blend buffer =
     (let rawFrames = parseGifBuffer buffer
      in if length rawFrames = 0 then Inl (Error ''No frames found in GIF'')
         else
           (let w = int (dims_width (dims (rawFrames ! 0)));
                h = int (dims_height (dims (rawFrames ! 0)));
                maxWidth = fold (\<lambda>frame m. max m (dims_left (dims frame) + int (dims_width (dims frame))))
                             rawFrames w;
                maxHeight = fold (\<lambda>frame m. max m (dims_top (dims frame) + int (dims_height (dims frame))))
                             rawFrames h
            in case buildFullFrames blend rawFrames (nat maxWidth) (nat maxHeight) of
                 Inl e \<Rightarrow> Inl e
               | Inr fs \<Rightarrow> Inr \<lparr>frames = fs, gif_width = nat maxWidth, gif_height = nat maxHeight\<rparr>))"

subsection \<open>Well-formed inputs and states\<close>

text \<open>
  The predicates of the theorems on the compositor. An \<open>ImageData\<close> is well formed when
  it has four bytes per pixel. A raw frame is acceptable when \<open>createImageData\<close> and
  \<open>data.set(patch)\<close> accept it: a positive size and a patch of at most
  \<open>4 * width * height\<close> bytes. A frame keeps the canvas when its disposal is neither 2
  nor 3. A compositor state is sound for a canvas size when the canvas and the snapshot,
  if any, are well formed and of that size.
\<close>

definition well_formed :: "imageData \<Rightarrow> bool" where
  "well_formed img = (length (data img) = 4 * width img * height img)"

definition transparent :: rgba where
  "transparent = (0, 0, 0, 0)"

definition frame_ok :: "rawFrame \<Rightarrow> bool" where
  "frame_ok frame =
     (0 < dims_width (dims frame) \<and> 0 < dims_height (dims frame)
      \<and> length (patch frame) \<le> 4 * dims_width (dims frame) * dims_height (dims frame))"

definition is_keep :: "rawFrame \<Rightarrow> bool" where
  "is_keep frame = (disposalType frame \<noteq> Some 2 \<and> disposalType frame \<noteq> Some 3)"

definition compositor_ok :: "nat \<Rightarrow> nat \<Rightarrow> compositor \<Rightarrow> bool" where
  "compositor_ok w h s =
     (well_formed (canvas s) \<and> width (canvas s) = w \<and> height (canvas s) = h
      \<and> (case previousImageData s of
            None \<Rightarrow> True
          | Some previous \<Rightarrow> well_formed previous \<and> width previous = w \<and> height previous = h))"

section \<open>Properties of the braille encoder\<close>

lemma upt_0_4: "[0..<4] = [0, 1, 2, 3]"
  by (simp add: upt_rec)

lemma upt_0_2: "[0..<2] = [0, 1]"
  by (simp add: upt_rec)

lemma length_brailleChar: "length (brailleChar dots) = 1"
  by (simp add: brailleChar_def fromCharCode_def Let_def)

lemma div4_step: "y < h \<Longrightarrow> (h - y + 3) div 4 = Suc ((h - (y + 4) + 3) div 4)" for y h :: nat
proof (cases "y + 4 \<le> h")
  case True
  then obtain k where "h = y + 4 + k" using le_Suc_ex by blast
  then show ?thesis by simp
next
  case False
  assume "y < h"
  with False have "h - (y + 4) = 0" "1 \<le> h - y" "h - y \<le> 3" by simp_all
  then show ?thesis by simp
qed

lemma div2_step: "x < w \<Longrightarrow> (w - x + 1) div 2 = Suc ((w - (x + 2) + 1) div 2)" for x w :: nat
proof (cases "x + 2 \<le> w")
  case True
  then obtain k where "w = x + 2 + k" using le_Suc_ex by blast
  then show ?thesis by simp
next
  case False
  assume "x < w"
  with False have "w - (x + 2) = 0" "w - x = 1" by simp_all
  then show ?thesis by simp
qed

lemma length_braille_line:
  "length (braille_line binary w y x acc) = length acc + (w - x + 1) div 2"
proof (induction binary w y x acc rule: braille_line.induct)
  case (1 binary w y x lineChars)
  show ?case
  proof (cases "x < w")
    case True
    then have "braille_line binary w y x lineChars =
               braille_line binary w y (x + 2) (lineChars @ brailleChar (block_dots binary y x))"
      by (subst braille_line.simps) simp
    moreover have "length (braille_line binary w y (x + 2) (lineChars @ brailleChar (block_dots binary y x)))
        = length (lineChars @ brailleChar (block_dots binary y x)) + (w - (x + 2) + 1) div 2"
      using 1 True by simp
    ultimately show ?thesis
      unfolding div2_step [OF True] by (simp add: length_brailleChar)
  next
    case False
    then show ?thesis by (subst braille_line.simps) simp
  qed
qed

lemma length_braille_lines:
  "length (braille_lines binary h w y acc) = length acc + (h - y + 3) div 4"
proof (induction binary h w y acc rule: braille_lines.induct)
  case (1 binary h w y lines)
  show ?case
  proof (cases "y < h")
    case True
    then have "braille_lines binary h w y lines =
               braille_lines binary h w (y + 4) (lines @ [braille_line binary w y 0 []])"
      by (subst braille_lines.simps) simp
    moreover have "length (braille_lines binary h w (y + 4) (lines @ [braille_line binary w y 0 []]))
        = length (lines @ [braille_line binary w y 0 []]) + (h - (y + 4) + 3) div 4"
      using 1 True by simp
    ultimately show ?thesis
      unfolding div4_step [OF True] by simp
  next
    case False
    then show ?thesis by (subst braille_lines.simps) simp
  qed
qed

lemma set_braille_lines:
  "l \<in> set (braille_lines binary h w y acc) \<Longrightarrow> l \<in> set acc \<or> length l = (w + 1) div 2"
proof (induction binary h w y acc rule: braille_lines.induct)
  case (1 binary h w y lines)
  show ?case
  proof (cases "y < h")
    case True
    then have "braille_lines binary h w y lines =
               braille_lines binary h w (y + 4) (lines @ [braille_line binary w y 0 []])"
      by (subst braille_lines.simps) simp
    with 1 True have "l \<in> set (lines @ [braille_line binary w y 0 []]) \<or> length l = (w + 1) div 2"
      by simp
    then show ?thesis by (auto simp: length_braille_line)
  next
    case False
    then have "braille_lines binary h w y lines = lines"
      by (subst braille_lines.simps) simp
    with 1 show ?thesis by simp
  qed
qed

lemma pad_rows_map:
  "\<forall>y \<in> set ys. y < h \<longrightarrow> length (binary ! y) \<le> newW \<Longrightarrow>
   pad_rows binary h newW ys =
     Inr (map (\<lambda>y. if y < h then binary ! y @ replicate (newW - length (binary ! y)) 0
                     else replicate newW 0) ys)"
proof (induction ys)
  case Nil
  then show ?case by simp
next
  case (Cons y ys)
  then show ?case
    by (auto simp: typed_array_set_def)
qed

lemma pad_rows_rect:
  assumes rect: "\<forall>row \<in> set binary. length row = first_row_length binary"
  shows "pad_rows binary (length binary) (first_row_length binary + padW) [0..<length binary + padH]
         = Inr (pad_bottom_right binary padH padW)"
proof -
  let ?w = "first_row_length binary" and ?h = "length binary"
  have "pad_rows binary ?h (?w + padW) [0..<?h + padH] =
        Inr (map (\<lambda>y. if y < ?h then binary ! y @ replicate (?w + padW - length (binary ! y)) 0
                     else replicate (?w + padW) 0) [0..<?h + padH])"
    by (rule pad_rows_map) (use rect in auto)
  also have "map (\<lambda>y. if y < ?h then binary ! y @ replicate (?w + padW - length (binary ! y)) 0
                     else replicate (?w + padW) 0) [0..<?h + padH] = pad_bottom_right binary padH padW"
    unfolding pad_bottom_right_def
    by (rule nth_equalityI) (use rect in \<open>auto simp: nth_append\<close>)
  finally show ?thesis .
qed


lemma brailleFromArray_rect:
  assumes rect: "\<forall>row \<in> set binary. length row = first_row_length binary"
  shows "brailleFromArray binary =
     Inr (braille_lines
            (pad_bottom_right binary ((4 - length binary mod 4) mod 4) ((2 - first_row_length binary mod 2) mod 2))
            (length binary + (4 - length binary mod 4) mod 4)
            (first_row_length binary + (2 - first_row_length binary mod 2) mod 2) 0 [])"
proof (cases "(4 - length binary mod 4) mod 4 > 0 \<or> (2 - first_row_length binary mod 2) mod 2 > 0")
  case True
  then show ?thesis
    unfolding brailleFromArray_def Let_def
    by (simp only: if_True pad_rows_rect [OF rect] sum.case)
next
  case False
  then have z: "(4 - length binary mod 4) mod 4 = 0" "(2 - first_row_length binary mod 2) mod 2 = 0"
    by simp_all
  have "pad_bottom_right binary 0 0 = binary"
    by (simp add: pad_bottom_right_def)
  with False z show ?thesis
    unfolding brailleFromArray_def Let_def by simp
qed

lemma pad_bottom_right_nth:
  assumes rect: "\<forall>row \<in> set binary. length row = first_row_length binary"
    and "y < length binary + padH" "x < first_row_length binary + padW"
  shows "pad_bottom_right binary padH padW ! y ! x =
         (if y < length binary \<and> x < first_row_length binary then binary ! y ! x else 0)"
  using assms unfolding pad_bottom_right_def
  by (auto simp: nth_append)

lemma pad_bottom_right_rows:
  assumes rect: "\<forall>row \<in> set binary. length row = first_row_length binary"
  shows "\<forall>row \<in> set (pad_bottom_right binary padH padW). length row = first_row_length binary + padW"
  using assms unfolding pad_bottom_right_def by auto

lemma dot_pad_bottom_right:
  assumes rect: "\<forall>row \<in> set binary. length row = first_row_length binary"
    and "y < length binary + padH" "x < first_row_length binary + padW"
    and "\<not> (y < length binary \<and> x < first_row_length binary)"
  shows "\<not> dot (pad_bottom_right binary padH padW) y x"
  using pad_bottom_right_nth [OF assms(1-3)] assms(4) by (simp add: dot_def)

lemma braille_lines_shape:
  "length (braille_lines binary h w 0 []) = (h + 3) div 4 \<and>
   (\<forall>l \<in> set (braille_lines binary h w 0 []). length l = (w + 1) div 2)"
  using length_braille_lines [of binary h w 0 "[]"] set_braille_lines [of _ binary h w 0 "[]"]
  by auto

lemma pad_residue: "\<forall>r \<in> set [0..<k]. (r + (k - r) mod k) mod k = 0" if "k = 4 \<or> k = 2" for k :: nat
  using that by (elim disjE) (simp_all, code_simp+)

lemma round_up_div: "n mod k = 0 \<Longrightarrow> 0 < k \<Longrightarrow> (n + (k - 1)) div k = n div k" for n k :: nat
proof -
  assume "n mod k = 0" "0 < k"
  then obtain q where n: "n = q * k" by (auto elim: dvdE dest: mod_0_imp_dvd)
  have "(k - 1 + q * k) div k = q + (k - 1) div k"
    using \<open>0 < k\<close> by (intro div_mult_self1) simp
  moreover have "(k - 1) div k = 0" using \<open>0 < k\<close> by simp
  ultimately show ?thesis using \<open>0 < k\<close> by (simp add: n add.commute)
qed

lemma padded_size:
  fixes n k :: nat
  assumes "k = 4 \<or> k = 2"
  shows "(n + (k - n mod k) mod k) mod k = 0 \<and>
   (n + (k - n mod k) mod k + (k - 1)) div k = (n + (k - n mod k) mod k) div k"
proof -
  have k: "0 < k" using assms by auto
  then have "n mod k \<in> set [0..<k]" by simp
  with pad_residue [OF assms] have "(n mod k + (k - n mod k) mod k) mod k = 0" by blast
  then have m: "(n + (k - n mod k) mod k) mod k = 0"
    by (simp add: mod_add_left_eq)
  with round_up_div [OF m k] show ?thesis by simp
qed

text \<open>
  Claim C6. On a rectangular binary grid of \<open>h\<close> rows and \<open>w\<close> columns,
  \<open>brailleFromArray\<close> encodes the grid padded with \<open>(4 - h mod 4) mod 4\<close> zero rows at the
  bottom and \<open>(2 - w mod 2) mod 2\<close> zero columns on the right: the padded grid has a
  height a multiple of 4 and a width a multiple of 2, holds the original cell at every
  original coordinate and 0 everywhere else, and every added cell reads as an unset dot.
  The result has one line per four padded rows and one character per two padded columns;
  a grid of 5 rows and 3 columns is padded to 8 by 4 and gives 2 lines of 2 characters.
\<close>

theorem brailleFromArray_pads_bottom_right:
  fixes binary :: binary_grid
  defines "h \<equiv> length binary" and "w \<equiv> first_row_length binary"
  defines "padH \<equiv> (4 - h mod 4) mod 4" and "padW \<equiv> (2 - w mod 2) mod 2"
  defines "padded \<equiv> pad_bottom_right binary padH padW"
  assumes rect: "\<forall>row \<in> set binary. length row = w"
  shows "brailleFromArray binary = Inr (braille_lines padded (h + padH) (w + padW) 0 [])
       \<and> length padded = h + padH \<and> (h + padH) mod 4 = 0 \<and> (w + padW) mod 2 = 0
       \<and> (\<forall>row \<in> set padded. length row = w + padW)
       \<and> (\<forall>y < h + padH. \<forall>x < w + padW.
             padded ! y ! x = (if y < h \<and> x < w then binary ! y ! x else 0))
       \<and> (\<forall>y < h + padH. \<forall>x < w + padW. \<not> (y < h \<and> x < w) \<longrightarrow> \<not> dot padded y x)
       \<and> (\<exists>lines. brailleFromArray binary = Inr lines
             \<and> length lines = (h + padH) div 4
             \<and> (\<forall>l \<in> set lines. length l = (w + padW) div 2))
       \<and> (h = 5 \<and> w = 3 \<longrightarrow> h + padH = 8 \<and> w + padW = 4
             \<and> (\<exists>l1 l2. brailleFromArray binary = Inr [l1, l2] \<and> length l1 = 2 \<and> length l2 = 2))"
proof -
  have rect': "\<forall>row \<in> set binary. length row = first_row_length binary"
    using rect by (simp add: w_def)
  have enc: "brailleFromArray binary = Inr (braille_lines padded (h + padH) (w + padW) 0 [])"
    using brailleFromArray_rect [OF rect'] by (simp add: padded_def padH_def padW_def h_def w_def)
  have len: "length padded = h + padH"
    by (simp add: padded_def pad_bottom_right_def h_def)
  have m4: "(h + padH) mod 4 = 0" and d4: "(h + padH + 3) div 4 = (h + padH) div 4"
    using padded_size [of 4 h] by (simp_all add: padH_def)
  have m2: "(w + padW) mod 2 = 0" and d2: "(w + padW + 1) div 2 = (w + padW) div 2"
    using padded_size [of 2 w] by (simp_all add: padW_def)
  have rows: "\<forall>row \<in> set padded. length row = w + padW"
    using pad_bottom_right_rows [OF rect'] by (simp add: padded_def w_def)
  have cells: "\<forall>y < h + padH. \<forall>x < w + padW.
             padded ! y ! x = (if y < h \<and> x < w then binary ! y ! x else 0)"
    using pad_bottom_right_nth [OF rect'] by (simp add: padded_def h_def w_def)
  have unset: "\<forall>y < h + padH. \<forall>x < w + padW. \<not> (y < h \<and> x < w) \<longrightarrow> \<not> dot padded y x"
    using dot_pad_bottom_right [OF rect'] unfolding padded_def h_def w_def by blast
  have shape: "\<exists>lines. brailleFromArray binary = Inr lines
             \<and> length lines = (h + padH) div 4
             \<and> (\<forall>l \<in> set lines. length l = (w + padW) div 2)"
    using braille_lines_shape [of padded "h + padH" "w + padW"] enc d4 d2 by simp
  have five_three: "h = 5 \<and> w = 3 \<longrightarrow> h + padH = 8 \<and> w + padW = 4
             \<and> (\<exists>l1 l2. brailleFromArray binary = Inr [l1, l2] \<and> length l1 = 2 \<and> length l2 = 2)"
  proof (intro impI)
    assume hw: "h = 5 \<and> w = 3"
    then have p: "padH = 3" "padW = 1" by (simp_all add: padH_def padW_def)
    from shape obtain lines where l: "brailleFromArray binary = Inr lines"
      "length lines = (h + padH) div 4" "\<forall>l \<in> set lines. length l = (w + padW) div 2"
      by blast
    from l(2) hw p have "length lines = 2" by simp
    then obtain l1 l2 where "lines = [l1, l2]"
      by (metis (no_types) length_0_conv length_Suc_conv numeral_2_eq_2)
    with l hw p show "h + padH = 8 \<and> w + padW = 4
             \<and> (\<exists>l1 l2. brailleFromArray binary = Inr [l1, l2] \<and> length l1 = 2 \<and> length l2 = 2)"
      by simp
  qed
  from enc len m4 m2 rows cells unset shape five_three show ?thesis by blast
qed

theorem brailleFromArray_pads_bottom_right_witness:
  "list_all (\<lambda>row. length row = 3) [[1, 0, 0], [0, 0, 0], [0, 0, 0], [0, 0, 1], [0, 0, 1 :: 8 word]]
   \<and> (\<exists>l1 l2. brailleFromArray [[1, 0, 0], [0, 0, 0], [0, 0, 0], [0, 0, 1], [0, 0, 1]] = Inr [l1, l2]
         \<and> length l1 = 2 \<and> length l2 = 2)"
proof -
  let ?b = "[[1, 0, 0], [0, 0, 0], [0, 0, 0], [0, 0, 1], [0, 0, 1 :: 8 word]]"
  have rect: "\<forall>row \<in> set ?b. length row = first_row_length ?b"
    by (simp add: first_row_length_def)
  have hw: "length ?b = 5 \<and> first_row_length ?b = 3"
    by (simp add: first_row_length_def)
  have "\<exists>l1 l2. brailleFromArray ?b = Inr [l1, l2] \<and> length l1 = 2 \<and> length l2 = 2"
    using brailleFromArray_pads_bottom_right [OF rect] hw by blast
  then show ?thesis by simp
qed

text \<open>
  Claim C4. For every block of four rows and two columns of dots, \<open>brailleChar\<close> returns
  the single code unit U+2800 plus the bit mask in which (row 0, col 0) is bit 0,
  (row 0, col 1) bit 3, (row 1, col 0) bit 1, (row 1, col 1) bit 4, (row 2, col 0) bit 2,
  (row 2, col 1) bit 5, (row 3, col 0) bit 6 and (row 3, col 1) bit 7. The block with only
  the dots (row 0, col 0) and (row 3, col 1) gives U+2800 + 0x81 (binary 10000001).
\<close>

theorem brailleChar_bit_assignment:
  "brailleChar [[r0c0, r0c1], [r1c0, r1c1], [r2c0, r2c1], [r3c0, r3c1]] =
     [0x2800 + (of_bool r0c0 * 2 ^ 0 + of_bool r0c1 * 2 ^ 3
              + of_bool r1c0 * 2 ^ 1 + of_bool r1c1 * 2 ^ 4
              + of_bool r2c0 * 2 ^ 2 + of_bool r2c1 * 2 ^ 5
              + of_bool r3c0 * 2 ^ 6 + of_bool r3c1 * 2 ^ 7)]
   \<and> brailleChar [[True, False], [False, False], [False, False], [False, True]]
       = [0x2800 + 0x81]"
  unfolding brailleChar_def braille_cell_def BRAILLE_DOT_BITS_def BRAILLE_BASE_def
    fromCharCode_def upt_0_4 upt_0_2 Let_def
  by (cases r0c0; cases r0c1; cases r1c0; cases r1c1;
      cases r2c0; cases r2c1; cases r3c0; cases r3c1; simp)

section \<open>Properties of the character mapper\<close>

lemma CHARSETS_nonempty: "CHARSETS charset = Some ramp \<Longrightarrow> ramp \<noteq> []"
  by (auto simp: CHARSETS_def split: if_splits)

lemma fold_snoc_map: "fold (\<lambda>x acc. acc @ [f x]) xs acc0 = acc0 @ map f xs"
  by (induction xs arbitrary: acc0) simp_all

lemma fold_append_concat: "fold (\<lambda>x acc. acc @ f x) xs acc0 = acc0 @ concat (map f xs)"
  by (induction xs arbitrary: acc0) simp_all

lemma map_row_nth:
  assumes "ramp \<noteq> []"
  shows "map_row ramp (int (length ramp) - 1) row =
         map (\<lambda>v. ramp ! nat (max 0 (min \<lfloor>v * (real (length ramp) - 1)\<rfloor> (int (length ramp) - 1)))) row"
proof -
  have idx: "char_at ramp (max 0 (min i (int (length ramp) - 1)))
             = [ramp ! nat (max 0 (min i (int (length ramp) - 1)))]" for i
    using assms by (auto simp: char_at_def)
  have "map_row ramp (int (length ramp) - 1) row =
        concat (map (\<lambda>v. [ramp ! nat (max 0 (min \<lfloor>v * (real (length ramp) - 1)\<rfloor> (int (length ramp) - 1)))]) row)"
    unfolding map_row_def Let_def idx fold_append_concat
    by (simp add: of_nat_diff)
  then show ?thesis by (simp add: concat_map_singleton)
qed

text \<open>
  Claim C7. For every registered charset, with ramp \<open>ramp\<close> of length \<open>len\<close>,
  \<open>mapArrayToChars\<close> maps every cell \<open>v\<close> of every row to
  \<open>ramp[clamp(floor(v * (len - 1)), 0, len - 1)]\<close>. For the ten-character ramp \<open>simple\<close>,
  luminance 0 gives \<open>ramp[0]\<close>, luminance 1 gives \<open>ramp[9]\<close> and luminance 0.5 gives
  \<open>ramp[4]\<close>.
\<close>

theorem mapArrayToChars_ramp_index:
  "(CHARSETS charset = Some ramp \<longrightarrow>
      mapArrayToChars charset luminanceRows =
        Inr (map (map (\<lambda>v. ramp ! nat (max 0 (min \<lfloor>v * (real (length ramp) - 1)\<rfloor>
                                                (int (length ramp) - 1)))))
                 luminanceRows))
   \<and> (\<exists>ramp. CHARSETS ''simple'' = Some ramp \<and> length ramp = 10
         \<and> mapArrayToChars ''simple'' [[0, 1, 1 / 2]] = Inr [[ramp ! 0, ramp ! 9, ramp ! 4]])"
proof (intro conjI impI)
  assume c: "CHARSETS charset = Some ramp"
  then have ne: "ramp \<noteq> []" by (rule CHARSETS_nonempty)
  show "mapArrayToChars charset luminanceRows =
        Inr (map (map (\<lambda>v. ramp ! nat (max 0 (min \<lfloor>v * (real (length ramp) - 1)\<rfloor>
                                                (int (length ramp) - 1)))))
                 luminanceRows)"
    unfolding mapArrayToChars_def c option.case Let_def fold_snoc_map map_row_nth [OF ne]
    by simp
next
  show "\<exists>ramp. CHARSETS ''simple'' = Some ramp \<and> length ramp = 10
         \<and> mapArrayToChars ''simple'' [[0, 1, 1 / 2]] = Inr [[ramp ! 0, ramp ! 9, ramp ! 4]]"
    by (simp add: mapArrayToChars_def CHARSETS_def map_row_def char_at_def Let_def)
qed

theorem mapArrayToChars_ramp_index_witness:
  "CHARSETS ''blocks'' = Some [0x20, 0x2581, 0x2582, 0x2583, 0x2584, 0x2585, 0x2586, 0x2587, 0x2588]
   \<and> mapArrayToChars ''blocks'' [[1 / 4, 3], [- 1]] = Inr [[0x2582, 0x2588], [0x20]]"
proof -
  have c: "CHARSETS ''blocks'' = Some [0x20, 0x2581, 0x2582, 0x2583, 0x2584, 0x2585, 0x2586, 0x2587, 0x2588]"
    by (simp add: CHARSETS_def)
  have "mapArrayToChars ''blocks'' [[1 / 4, 3], [- 1]] = Inr [[0x2582, 0x2588], [0x20]]"
    using mapArrayToChars_ramp_index [of "''blocks''" _ "[[1 / 4, 3], [- 1]]"] c
    by simp
  with c show ?thesis by simp
qed

section \<open>Properties of the error diffusion\<close>

lemma shape_update: "map length (img[y := (img ! y)[x := v]]) = map length img"
  by (cases "y < length img") (simp_all add: map_update list_update_same_conv list_update_beyond)

lemma shape_set_cell: "map length (set_cell f32 img y x v) = map length img"
  by (simp add: set_cell_def shape_update)

lemma shape_add_cell: "map length (add_cell rd f32 img y x d) = map length img"
  by (simp add: add_cell_def shape_update)

lemma shape_fs_cell: "map length (fs_cell rd f32 step h w y x img) = map length img"
  by (simp add: fs_cell_def Let_def shape_set_cell shape_add_cell)

lemma fs_cell_diffuse_cell: "fs_cell rd f32 step h w y x img = diffuse_cell rd f32 step h w (y, x) img"
  by (simp add: fs_cell_def diffuse_cell_def clamp01_def Let_def)

lemma fs_row_fold: "fs_row rd f32 step h w y x img = fold (fs_cell rd f32 step h w y) [x..<w] img"
proof (induction rd f32 step h w y x img rule: fs_row.induct)
  case (1 rd f32 step h w y x img)
  show ?case
  proof (cases "x < w")
    case True
    then have "fs_row rd f32 step h w y x img = fs_row rd f32 step h w y (x + 1) (fs_cell rd f32 step h w y x img)"
      by (subst fs_row.simps) simp
    with 1 True show ?thesis by (simp add: upt_conv_Cons)
  next
    case False
    then show ?thesis by (subst fs_row.simps) simp
  qed
qed

lemma fs_rows_fold:
  "fs_rows rd f32 step h w y img = fold (\<lambda>y. fold (fs_cell rd f32 step h w y) [0..<w]) [y..<h] img"
proof (induction rd f32 step h w y img rule: fs_rows.induct)
  case (1 rd f32 step h w y img)
  show ?case
  proof (cases "y < h")
    case True
    then have "fs_rows rd f32 step h w y img = fs_rows rd f32 step h w (y + 1) (fs_row rd f32 step h w y 0 img)"
      by (subst fs_rows.simps) simp
    with 1 True show ?thesis by (simp add: upt_conv_Cons fs_row_fold)
  next
    case False
    then show ?thesis by (subst fs_rows.simps) simp
  qed
qed

lemma fold_concat_nested: "fold f (concat xss) = fold (fold f) xss"
  by (induction xss) simp_all

lemma fs_rows_raster:
  "fs_rows rd f32 step h w 0 img = fold (diffuse_cell rd f32 step h w) (raster_order h w) img"
proof -
  have "fold (diffuse_cell rd f32 step h w) (map (\<lambda>x. (y, x)) xs) = fold (fs_cell rd f32 step h w y) xs" for y xs
    by (simp add: fold_map comp_def fs_cell_diffuse_cell [abs_def])
  then show ?thesis
    by (simp add: fs_rows_fold raster_order_def fold_concat_nested fold_map comp_def)
qed

lemma clamp_row_fold:
  "clamp_row f32 w y x img =
     fold (\<lambda>x img. set_cell f32 img y x (max 0 (min 1 (img ! y ! x)))) [x..<w] img"
proof (induction f32 w y x img rule: clamp_row.induct)
  case (1 f32 w y x img)
  show ?case
  proof (cases "x < w")
    case True
    then have "clamp_row f32 w y x img =
               clamp_row f32 w y (x + 1) (set_cell f32 img y x (max 0 (min 1 (img ! y ! x))))"
      by (subst clamp_row.simps) simp
    with 1 True show ?thesis by (simp add: upt_conv_Cons)
  next
    case False
    then show ?thesis by (subst clamp_row.simps) simp
  qed
qed

lemma clamp_rows_fold:
  "clamp_rows f32 h w y img = fold (\<lambda>y. clamp_row f32 w y 0) [y..<h] img"
proof (induction f32 h w y img rule: clamp_rows.induct)
  case (1 f32 h w y img)
  show ?case
  proof (cases "y < h")
    case True
    then have "clamp_rows f32 h w y img = clamp_rows f32 h w (y + 1) (clamp_row f32 w y 0 img)"
      by (subst clamp_rows.simps) simp
    with 1 True show ?thesis by (simp add: upt_conv_Cons)
  next
    case False
    then show ?thesis by (subst clamp_rows.simps) simp
  qed
qed

lemma update_cells_prefix:
  assumes "y < length img" "k \<le> length (img ! y)"
  shows "fold (\<lambda>x img. img[y := (img ! y)[x := f (img ! y ! x)]]) [0..<k] img
         = img[y := map f (take k (img ! y)) @ drop k (img ! y)]"
  using assms(2)
proof (induction k)
  case 0
  then show ?case by simp
next
  case (Suc k)
  then have k: "k < length (img ! y)" by simp
  have "(map f (take k (img ! y)) @ drop k (img ! y))
          [k := f ((map f (take k (img ! y)) @ drop k (img ! y)) ! k)]
        = map f (take (Suc k) (img ! y)) @ drop (Suc k) (img ! y)"
    using k
    by (simp add: list_update_append nth_append take_Suc_conv_app_nth
        Cons_nth_drop_Suc [symmetric])
  with Suc k assms(1) show ?case
    by simp
qed

lemma update_rows_prefix:
  assumes rect: "\<forall>row \<in> set img. length row = w" and k: "k \<le> length img"
    and row: "\<And>y g. y < length g \<Longrightarrow> length (g ! y) = w \<Longrightarrow> r y g = g[y := map f (g ! y)]"
  shows "fold r [0..<k] img = map (map f) (take k img) @ drop k img"
  using k
proof (induction k)
  case 0
  then show ?case by simp
next
  case (Suc k)
  then have k: "k < length img" by simp
  let ?g = "map (map f) (take k img) @ drop k img"
  have len: "k < length ?g" using k by simp
  have nth: "?g ! k = img ! k" using k by (simp add: nth_append)
  have w: "length (?g ! k) = w" using rect k nth by simp
  have "r k ?g = ?g[k := map f (img ! k)]"
    using row [OF len w] nth by simp
  also have "\<dots> = map (map f) (take (Suc k) img) @ drop (Suc k) img"
    using k by (simp add: list_update_append take_Suc_conv_app_nth Cons_nth_drop_Suc [symmetric])
  finally show ?case using Suc k by simp
qed

lemma clamp_row_whole:
  assumes "y < length img" "length (img ! y) = w"
  shows "clamp_row f32 w y 0 img = img[y := map (\<lambda>v. f32 (clamp01 v)) (img ! y)]"
proof -
  have "clamp_row f32 w y 0 img =
        fold (\<lambda>x img. img[y := (img ! y)[x := f32 (clamp01 (img ! y ! x))]]) [0..<w] img"
    by (simp add: clamp_row_fold clamp01_def set_cell_def)
  then show ?thesis
    using update_cells_prefix [OF assms(1), of w "\<lambda>v. f32 (clamp01 v)"] assms(2) by simp
qed

lemma clamp_rows_whole:
  assumes "\<forall>row \<in> set img. length row = w"
  shows "clamp_rows f32 (length img) w 0 img = map (map (\<lambda>v. f32 (clamp01 v))) img"
  using update_rows_prefix [OF assms order_refl, of "\<lambda>y. clamp_row f32 w y 0"
      "\<lambda>v. f32 (clamp01 v)"]
  by (simp add: clamp_rows_fold clamp_row_whole)

lemma clamp01_range: "0 \<le> clamp01 v \<and> clamp01 v \<le> 1"
  by (simp add: clamp01_def)

lemma nth_update2:
  "y' < length img \<Longrightarrow> x' < length (img ! y') \<Longrightarrow>
   img[y := (img ! y)[x := v]] ! y' ! x' = (if y' = y \<and> x' = x then v else img ! y' ! x')"
  by (cases "y' = y") (simp_all add: nth_list_update)

lemma row_length_update2: "length (img[y := (img ! y)[x := v]] ! y') = length (img ! y')"
proof (cases "y < length img")
  case True
  then show ?thesis by (cases "y' = y") simp_all
next
  case False
  then show ?thesis by (simp add: list_update_beyond)
qed

lemma nth_set_cell:
  "y' < length img \<Longrightarrow> x' < length (img ! y') \<Longrightarrow>
   set_cell f32 img y x v ! y' ! x' = (if y' = y \<and> x' = x then f32 v else img ! y' ! x')"
  unfolding set_cell_def by (rule nth_update2)

lemma nth_add_cell:
  "y' < length img \<Longrightarrow> x' < length (img ! y') \<Longrightarrow>
   add_cell rd f32 img y x d ! y' ! x' =
     (if y' = y \<and> x' = x then f32 (rd (img ! y' ! x' + d)) else img ! y' ! x')"
  unfolding add_cell_def by (simp add: nth_update2)

lemma length_set_cell: "length (set_cell f32 img y x v) = length img"
  by (simp add: set_cell_def)

lemma length_add_cell: "length (add_cell rd f32 img y x v) = length img"
  by (simp add: add_cell_def)

lemma row_length_set_cell: "length (set_cell f32 img y x v ! y') = length (img ! y')"
  unfolding set_cell_def by (rule row_length_update2)

lemma row_length_add_cell: "length (add_cell rd f32 img y x v ! y') = length (img ! y')"
  unfolding add_cell_def by (rule row_length_update2)

lemmas cell_simps = nth_set_cell nth_add_cell length_set_cell length_add_cell
  row_length_set_cell row_length_add_cell

text \<open>
  One step of the diffusion read cell by cell: the visited cell becomes the quantized
  value, its four neighbours receive their share of the error where the bounds test of
  the neighbour holds, and every other cell keeps its value.
\<close>

lemma diffuse_cell_nth:
  assumes "y' < length grid" "x' < length (grid ! y')"
  shows "diffuse_cell rd f32 step h w (y, x) grid ! y' ! x' =
     (let old = grid ! y ! x;
          quantized = clamp01 (rd (js_round (rd (old / step)) * step));
          err = rd (old - quantized);
          plus = (\<lambda>weight. f32 (rd (grid ! y' ! x' + rd (err * rd weight))))
      in if y' = y \<and> x' = x then f32 quantized
         else if y' = y \<and> x' = x + 1 \<and> x + 1 < w then plus (7 / 16)
         else if y' = y + 1 \<and> x' + 1 = x \<and> y + 1 < h then plus (3 / 16)
         else if y' = y + 1 \<and> x' = x \<and> y + 1 < h then plus (5 / 16)
         else if y' = y + 1 \<and> x' = x + 1 \<and> y + 1 < h \<and> x + 1 < w then plus (1 / 16)
         else grid ! y' ! x')"
proof -
  consider (row) "y' = y" | (below) "y' = y + 1" | (other) "y' \<noteq> y \<and> y' \<noteq> y + 1" by blast
  then show ?thesis
  proof cases
    case row
    consider "x' = x" | "x' = x + 1" | "x' \<noteq> x \<and> x' \<noteq> x + 1" by blast
    then show ?thesis
      using assms row by cases (simp_all add: diffuse_cell_def Let_def cell_simps)
  next
    case below
    consider "x' + 1 = x" | "x' = x" | "x' = x + 1" | "x' + 1 \<noteq> x \<and> x' \<noteq> x \<and> x' \<noteq> x + 1" by blast
    then show ?thesis
      using assms below by cases (auto simp add: diffuse_cell_def Let_def cell_simps)
  next
    case other
    then show ?thesis
      using assms by (simp add: diffuse_cell_def Let_def cell_simps)
  qed
qed

lemma shape_fold:
  assumes "\<And>x g. map length (f x g) = map length g"
  shows "map length (fold f xs img) = map length img"
  by (induction xs arbitrary: img) (simp_all add: assms)

lemma shape_fs_rows: "map length (fs_rows rd f32 step h w y img) = map length img"
  unfolding fs_rows_fold
  by (intro shape_fold) (simp add: shape_fs_cell)

lemma shape_clamp_rows: "map length (clamp_rows f32 h w y img) = map length img"
  unfolding clamp_rows_fold clamp_row_fold
  by (intro shape_fold) (simp add: shape_set_cell)

lemma shape_floydSteinberg: "map length (floydSteinberg rd f32 gray levels) = map length gray"
  by (simp add: floydSteinberg_def Let_def shape_clamp_rows shape_fs_rows comp_def)

lemma rows_of_shape:
  "map length img' = map length img \<Longrightarrow> \<forall>row \<in> set img. length row = w \<Longrightarrow>
   \<forall>row \<in> set img'. length row = w"
  by (metis (no_types, lifting) image_iff list.set_map)

lemma rounding_ok_unit: "rounding_ok f \<Longrightarrow> 0 \<le> f (clamp01 v) \<and> f (clamp01 v) \<le> 1"
  using clamp01_range [of v] by (metis monoD rounding_ok_def)

text \<open>
  Claim C1. On every rectangular grayscale grid, for every \<open>levels\<close> (so for every
  \<open>levels \<ge> 1\<close>) and whatever the two roundings are, \<open>floydSteinberg\<close> is the diffusion of
  the specification: the cells are processed in row-major order over a copy; each cell is
  set to \<open>clamp(round(old / step) * step, 0, 1)\<close> with \<open>step = 1 / (levels - 1)\<close> when
  \<open>levels > 1\<close> and 1 otherwise; the error \<open>old - quantized\<close> is added with the weights
  7/16, 3/16, 5/16 and 1/16 to the right, down-left, down and down-right neighbours that
  are in bounds; and every cell is clamped at the end. The result has the shape of the
  input, and all its cells lie in [0, 1] when the rounding of the stores is monotone and
  exact at 0 and 1.
\<close>

theorem floydSteinberg_row_major_diffusion:
  assumes rect: "\<forall>row \<in> set gray. length row = first_row_length gray"
  shows "floydSteinberg rd f32 gray levels = diffuse rd f32 gray levels
       \<and> map length (floydSteinberg rd f32 gray levels) = map length gray
       \<and> (rounding_ok f32 \<longrightarrow>
            (\<forall>row \<in> set (floydSteinberg rd f32 gray levels). \<forall>v \<in> set row. 0 \<le> v \<and> v \<le> 1))"
proof -
  let ?h = "length gray" and ?w = "first_row_length gray"
  let ?step = "if levels > 1 then rd (1 / rd (levels - 1)) else 1"
  let ?copy = "map (map f32) gray"
  let ?pass = "fs_rows rd f32 ?step ?h ?w 0 ?copy"
  have shape: "map length ?pass = map length gray"
    by (simp add: shape_fs_rows comp_def)
  then have len: "length ?pass = ?h"
    by (metis length_map)
  have rows: "\<forall>row \<in> set ?pass. length row = ?w"
    using rows_of_shape [OF shape rect] .
  have "floydSteinberg rd f32 gray levels = clamp_rows f32 (length ?pass) ?w 0 ?pass"
    by (simp add: floydSteinberg_def Let_def len)
  also have "\<dots> = map (map (\<lambda>v. f32 (clamp01 v))) ?pass"
    by (rule clamp_rows_whole [OF rows])
  also have "\<dots> = diffuse rd f32 gray levels"
    by (simp add: diffuse_def Let_def fs_rows_raster)
  finally have eq: "floydSteinberg rd f32 gray levels = diffuse rd f32 gray levels" .
  have range: "\<forall>row \<in> set (diffuse rd f32 gray levels). \<forall>v \<in> set row. 0 \<le> v \<and> v \<le> 1"
    if "rounding_ok f32"
    using rounding_ok_unit [OF that] by (auto simp: diffuse_def Let_def)
  from eq range shape_floydSteinberg [of rd f32 gray levels] show ?thesis by simp
qed

text \<open>
  At this input every value the program computes is a multiple of \<open>2^-16\<close> below 2 in
  size, so every operation and every store is exact in binary floating point and the
  grid below is the one the program returns.
\<close>

theorem floydSteinberg_row_major_diffusion_witness:
  "list_all (\<lambda>row. length row = 2) [[1 / 2, 1 / 2], [1 / 2, 1 / 2 :: real]]
   \<and> floydSteinberg exact_rounding exact_rounding [[1 / 2, 1 / 2], [1 / 2, 1 / 2]] 2
       = [[1, 0], [0, 1]]
   \<and> diffuse exact_rounding exact_rounding [[1 / 2, 1 / 2], [1 / 2, 1 / 2]] 2
       = [[1, 0], [0, 1]]"
proof -
  let ?g = "[[1 / 2, 1 / 2], [1 / 2, 1 / 2 :: real]]"
  have rect: "\<forall>row \<in> set ?g. length row = first_row_length ?g"
    by (simp add: first_row_length_def)
  have d: "diffuse exact_rounding exact_rounding ?g 2 = [[1, 0], [0, 1]]"
    by code_simp
  have "floydSteinberg exact_rounding exact_rounding ?g 2 = diffuse exact_rounding exact_rounding ?g 2"
    using floydSteinberg_row_major_diffusion [OF rect, of exact_rounding exact_rounding 2] by blast
  with d show ?thesis by simp
qed

text \<open>
  Claim C10, as stated, fails: with \<open>levels = 0\<close> the function raises nothing and returns
  a grid. (At this input every operation is exact in binary floating point: the step is
  1, the cell 0.5 rounds to 1.)
\<close>

theorem floydSteinberg_levels_zero_returns:
  "floydSteinberg exact_rounding exact_rounding [[1 / 2]] 0 = [[1]]"
  by code_simp

text \<open>
  Claim C10, amended. For every \<open>levels < 1\<close>, \<open>floydSteinberg\<close> does not fail: it takes
  \<open>step = 1\<close>, returns what it returns for \<open>levels = 1\<close>, and the result has the shape
  of the input, whatever the roundings are.
\<close>

theorem floydSteinberg_levels_below_one:
  "levels < 1 \<Longrightarrow>
     floydSteinberg rd f32 gray levels = floydSteinberg rd f32 gray 1
     \<and> map length (floydSteinberg rd f32 gray levels) = map length gray"
  by (simp add: floydSteinberg_def Let_def shape_clamp_rows shape_fs_rows comp_def)

theorem floydSteinberg_levels_below_one_witness:
  "(0 :: real) < 1
   \<and> floydSteinberg exact_rounding exact_rounding [[1 / 2]] 0
       = floydSteinberg exact_rounding exact_rounding [[1 / 2]] 1
   \<and> map length (floydSteinberg exact_rounding exact_rounding [[1 / 2]] 0)
       = map length [[1 / 2 :: real]]"
proof -
  have lt: "(0 :: real) < 1" by simp
  from floydSteinberg_levels_below_one [OF lt, of exact_rounding exact_rounding "[[1 / 2]]"] lt
  show ?thesis by blast
qed

section \<open>Properties of the tone adjustment\<close>

lemma gray_row_from:
  "x \<le> width imageData \<Longrightarrow> length row = width imageData \<Longrightarrow>
   gray_row rd f32 imageData y x row =
     take x row @ map (\<lambda>x. f32 (luminance rd imageData y x)) [x..<width imageData]"
proof (induction rd f32 imageData y x row rule: gray_row.induct)
  case (1 rd f32 imageData y x row)
  show ?case
  proof (cases "x < width imageData")
    case True
    then have "gray_row rd f32 imageData y x row =
               gray_row rd f32 imageData y (x + 1) (row[x := f32 (luminance rd imageData y x)])"
      by (subst gray_row.simps) simp
    also have "\<dots> = take (x + 1) (row[x := f32 (luminance rd imageData y x)])
                     @ map (\<lambda>x. f32 (luminance rd imageData y x)) [x + 1..<width imageData]"
      using 1 True by simp
    also have "take (x + 1) (row[x := f32 (luminance rd imageData y x)])
               = take x row @ [f32 (luminance rd imageData y x)]"
      using True 1(3) by (simp add: take_Suc_conv_app_nth)
    finally show ?thesis using True by (simp add: upt_conv_Cons)
  next
    case False
    with 1 show ?thesis by (subst gray_row.simps) simp
  qed
qed

lemma gray_row_map:
  "gray_row rd f32 imageData y 0 (replicate (width imageData) 0)
   = map (\<lambda>x. f32 (luminance rd imageData y x)) [0..<width imageData]"
  by (simp add: gray_row_from)

lemma gray_rows_from:
  "gray_rows rd f32 imageData y rows =
   rows @ map (\<lambda>y. map (\<lambda>x. f32 (luminance rd imageData y x)) [0..<width imageData])
            [y..<height imageData]"
proof (induction rd f32 imageData y rows rule: gray_rows.induct)
  case (1 rd f32 imageData y rows)
  show ?case
  proof (cases "y < height imageData")
    case True
    then have "gray_rows rd f32 imageData y rows =
               gray_rows rd f32 imageData (y + 1)
                 (rows @ [gray_row rd f32 imageData y 0 (replicate (width imageData) 0)])"
      by (subst gray_rows.simps) simp
    with 1 True show ?thesis by (simp add: upt_conv_Cons gray_row_map)
  next
    case False
    then show ?thesis by (subst gray_rows.simps) simp
  qed
qed

lemma toGrayscale_map:
  "toGrayscale rd f32 imageData =
   map (\<lambda>y. map (\<lambda>x. f32 (luminance rd imageData y x)) [0..<width imageData])
       [0..<height imageData]"
  by (simp add: toGrayscale_def gray_rows_from)

lemma adjust_row_fold:
  "adjust_row rd f32 b c w y x img =
     fold (\<lambda>x img. set_cell f32 img y x (adjust_cell rd b c (img ! y ! x))) [x..<w] img"
proof (induction rd f32 b c w y x img rule: adjust_row.induct)
  case (1 rd f32 b c w y x img)
  show ?case
  proof (cases "x < w")
    case True
    then have "adjust_row rd f32 b c w y x img =
               adjust_row rd f32 b c w y (x + 1)
                 (set_cell f32 img y x (adjust_cell rd b c (img ! y ! x)))"
      by (subst adjust_row.simps) simp
    with 1 True show ?thesis by (simp add: upt_conv_Cons)
  next
    case False
    then show ?thesis by (subst adjust_row.simps) simp
  qed
qed

lemma adjust_rows_fold:
  "adjust_rows rd f32 b c h w y img = fold (\<lambda>y. adjust_row rd f32 b c w y 0) [y..<h] img"
proof (induction rd f32 b c h w y img rule: adjust_rows.induct)
  case (1 rd f32 b c h w y img)
  show ?case
  proof (cases "y < h")
    case True
    then have "adjust_rows rd f32 b c h w y img =
               adjust_rows rd f32 b c h w (y + 1) (adjust_row rd f32 b c w y 0 img)"
      by (subst adjust_rows.simps) simp
    with 1 True show ?thesis by (simp add: upt_conv_Cons)
  next
    case False
    then show ?thesis by (subst adjust_rows.simps) simp
  qed
qed

lemma adjust_row_whole:
  assumes "y < length img" "length (img ! y) = w"
  shows "adjust_row rd f32 b c w y 0 img =
         img[y := map (\<lambda>v. f32 (adjust_cell rd b c v)) (img ! y)]"
  using update_cells_prefix [OF assms(1), of w "\<lambda>v. f32 (adjust_cell rd b c v)"] assms(2)
  by (simp add: adjust_row_fold set_cell_def)

lemma adjust_cell_tone_curve: "adjust_cell rd b c v = tone_curve rd b c v"
  by (simp add: adjust_cell_def tone_curve_def clamp01_def Let_def)

lemma first_row_length_map: "first_row_length (map (map f) rows) = first_row_length rows"
  by (cases rows) (simp_all add: first_row_length_def)

lemma adjustBrightnessContrast_map:
  assumes "\<forall>row \<in> set gray. length row = first_row_length gray"
  shows "adjustBrightnessContrast rd f32 gray b c
         = map (map (\<lambda>v. f32 (tone_curve rd b c (f32 v)))) gray"
proof -
  let ?copy = "map (map f32) gray"
  have rect: "\<forall>row \<in> set ?copy. length row = first_row_length gray"
    using assms by auto
  have "adjustBrightnessContrast rd f32 gray b c
        = fold (\<lambda>y. adjust_row rd f32 b c (first_row_length gray) y 0) [0..<length ?copy] ?copy"
    by (simp add: adjustBrightnessContrast_def adjust_rows_fold)
  also have "\<dots> = map (map (\<lambda>v. f32 (adjust_cell rd b c v))) ?copy"
    using update_rows_prefix [OF rect order_refl,
        of "\<lambda>y. adjust_row rd f32 b c (first_row_length gray) y 0"
           "\<lambda>v. f32 (adjust_cell rd b c v)"]
    by (simp add: adjust_row_whole)
  finally show ?thesis
    by (simp add: adjust_cell_tone_curve comp_def)
qed

lemma tone_curve_neutral: "0 \<le> v \<Longrightarrow> v \<le> 1 \<Longrightarrow> tone_curve rd 0 100 v = v"
  by (simp add: tone_curve_def clamp01_def)

text \<open>
  Claim C8. Whatever the two roundings are, \<open>toGrayscale\<close> returns \<open>height\<close> rows of
  \<open>width\<close> cells, and the cell of the pixel \<open>(x, y)\<close> is
  \<open>(0.299 R + 0.587 G + 0.114 B) / 255\<close> of the pixel's bytes, computed in double
  precision from the left and stored in single precision. On a rectangular grid
  \<open>adjustBrightnessContrast\<close> maps every cell \<open>v\<close> to the clamp to [0, 1] of \<open>v''\<close>, where
  \<open>v' = v + brightness / 100\<close> (skipped when \<open>brightness = 0\<close>) and
  \<open>v'' = (v' - 0.5) * (contrast / 100) + 0.5\<close> (skipped when \<open>contrast = 100\<close>), in that
  order, computed in double precision on the single-precision copy of \<open>v\<close> and stored in
  single precision; with brightness 0 and contrast 100 a grid of single-precision cells
  in [0, 1] is returned unchanged.
\<close>

theorem tone_adjuster_formulas:
  "length (toGrayscale rd f32 imageData) = height imageData
   \<and> (\<forall>y < height imageData. \<forall>x < width imageData.
         length (toGrayscale rd f32 imageData ! y) = width imageData
         \<and> toGrayscale rd f32 imageData ! y ! x =
             f32 (rd (rd (rd
                   (rd (rd 0.299 * real (unat (data imageData ! ((y * width imageData + x) * 4))))
                    + rd (rd 0.587
                          * real (unat (data imageData ! ((y * width imageData + x) * 4 + 1)))))
                   + rd (rd 0.114
                         * real (unat (data imageData ! ((y * width imageData + x) * 4 + 2)))))
                  / 255)))
   \<and> ((\<forall>row \<in> set gray. length row = first_row_length gray) \<longrightarrow>
         adjustBrightnessContrast rd f32 gray brightness contrast
           = map (map (\<lambda>v. f32 (tone_curve rd brightness contrast (f32 v)))) gray)
   \<and> ((\<forall>row \<in> set gray. length row = first_row_length gray)
        \<and> (\<forall>row \<in> set gray. \<forall>v \<in> set row. 0 \<le> v \<and> v \<le> 1 \<and> f32 v = v) \<longrightarrow>
         adjustBrightnessContrast rd f32 gray 0 100 = gray)"
proof (intro conjI allI impI)
  show "length (toGrayscale rd f32 imageData) = height imageData"
    by (simp add: toGrayscale_map)
next
  fix y x assume "y < height imageData" "x < width imageData"
  then show "length (toGrayscale rd f32 imageData ! y) = width imageData"
    by (simp add: toGrayscale_map)
next
  fix y x assume "y < height imageData" "x < width imageData"
  then show "toGrayscale rd f32 imageData ! y ! x =
             f32 (rd (rd (rd
                   (rd (rd 0.299 * real (unat (data imageData ! ((y * width imageData + x) * 4))))
                    + rd (rd 0.587
                          * real (unat (data imageData ! ((y * width imageData + x) * 4 + 1)))))
                   + rd (rd 0.114
                         * real (unat (data imageData ! ((y * width imageData + x) * 4 + 2)))))
                  / 255))"
    by (simp add: toGrayscale_map luminance_def byte_def Let_def)
next
  assume "\<forall>row \<in> set gray. length row = first_row_length gray"
  then show "adjustBrightnessContrast rd f32 gray brightness contrast
           = map (map (\<lambda>v. f32 (tone_curve rd brightness contrast (f32 v)))) gray"
    by (rule adjustBrightnessContrast_map)
next
  assume a: "(\<forall>row \<in> set gray. length row = first_row_length gray)
        \<and> (\<forall>row \<in> set gray. \<forall>v \<in> set row. 0 \<le> v \<and> v \<le> 1 \<and> f32 v = v)"
  then have "map (map (\<lambda>v. f32 (tone_curve rd 0 100 (f32 v)))) gray = map (map (\<lambda>v. v)) gray"
    by (intro map_cong refl) (simp add: tone_curve_neutral)
  with a show "adjustBrightnessContrast rd f32 gray 0 100 = gray"
    by (simp add: adjustBrightnessContrast_map)
qed

text \<open>
  At these inputs every operation is exact in binary floating point (a black pixel;
  cells and offsets that are multiples of 1/4), so the values below are the program's.
\<close>

theorem tone_adjuster_formulas_witness:
  "toGrayscale exact_rounding exact_rounding
     \<lparr>width = 1, height = 1, data = [0, 0, 0, 255]\<rparr> ! 0 ! 0 = 0
   \<and> adjustBrightnessContrast exact_rounding exact_rounding [[1 / 2, 1 / 4]] 25 200
       = [[1, 1 / 2]]
   \<and> adjustBrightnessContrast exact_rounding exact_rounding [[1 / 2, 1 / 4]] 0 100
       = [[1 / 2, 1 / 4]]"
proof -
  let ?img = "\<lparr>width = 1, height = 1, data = [0, 0, 0, 255]\<rparr>"
  let ?g = "[[1 / 2, 1 / 4 :: real]]"
  note t = tone_adjuster_formulas [of exact_rounding exact_rounding ?img ?g]
  have rect: "\<forall>row \<in> set ?g. length row = first_row_length ?g"
    by (simp add: first_row_length_def)
  have range: "\<forall>row \<in> set ?g. \<forall>v \<in> set row. 0 \<le> v \<and> v \<le> 1 \<and> exact_rounding v = v"
    by (simp add: exact_rounding_def)
  have "\<forall>y < height ?img. \<forall>x < width ?img.
          toGrayscale exact_rounding exact_rounding ?img ! y ! x =
             exact_rounding (exact_rounding (exact_rounding (exact_rounding
                   (exact_rounding (exact_rounding 0.299
                      * real (unat (data ?img ! ((y * width ?img + x) * 4))))
                    + exact_rounding (exact_rounding 0.587
                          * real (unat (data ?img ! ((y * width ?img + x) * 4 + 1)))))
                   + exact_rounding (exact_rounding 0.114
                         * real (unat (data ?img ! ((y * width ?img + x) * 4 + 2)))))
                  / 255))"
    using t [of 25 200] by blast
  then have a: "toGrayscale exact_rounding exact_rounding ?img ! 0 ! 0 = 0"
    by (simp add: exact_rounding_def)
  have "adjustBrightnessContrast exact_rounding exact_rounding ?g 25 200
        = map (map (\<lambda>v. exact_rounding (tone_curve exact_rounding 25 200 (exact_rounding v)))) ?g"
    using t [of 25 200] rect by blast
  then have b: "adjustBrightnessContrast exact_rounding exact_rounding ?g 25 200 = [[1, 1 / 2]]"
    by (simp add: tone_curve_def clamp01_def exact_rounding_def)
  have c: "adjustBrightnessContrast exact_rounding exact_rounding ?g 0 100 = ?g"
    using t [of 0 100] rect range by blast
  from a b c show ?thesis by blast
qed

section \<open>Properties of the frame compositor\<close>

lemma map_bitmap_dims [simp]:
  "width (map_bitmap f c) = width c" "height (map_bitmap f c) = height c"
  "length (data (map_bitmap f c)) = length (data c)"
  by (simp_all add: map_bitmap_def)

lemma well_formed_map_bitmap [simp]: "well_formed (map_bitmap f c) = well_formed c"
  by (simp add: well_formed_def)

lemma byte_index:
  fixes x y w k :: nat
  assumes "x < w" "k < 4"
  shows "((y * w + x) * 4 + k) div 4 mod w = x" "((y * w + x) * 4 + k) div 4 div w = y"
    "((y * w + x) * 4 + k) mod 4 = k"
proof -
  have d: "((y * w + x) * 4 + k) div 4 = y * w + x" using assms(2) by simp
  show "((y * w + x) * 4 + k) div 4 mod w = x" unfolding d using assms(1) by simp
  show "((y * w + x) * 4 + k) div 4 div w = y" unfolding d using assms(1) by simp
  have "((y * w + x) * 4 + k) mod 4 = k mod 4" by (rule mod_mult_self3)
  then show "((y * w + x) * 4 + k) mod 4 = k" using assms(2) by (simp only: mod_less)
qed

lemma byte_index_bound:
  fixes x y w h k :: nat
  assumes "x < w" "y < h" "k < 4"
  shows "(y * w + x) * 4 + k < 4 * w * h"
proof -
  have "y * w + x < (y + 1) * w" using assms(1) by simp
  also have "\<dots> \<le> h * w" using assms(2) by (intro mult_le_mono1) simp
  finally have "y * w + x + 1 \<le> w * h" by (simp add: mult.commute)
  then have "(y * w + x + 1) * 4 \<le> w * h * 4" by (intro mult_le_mono1)
  with assms(3) show ?thesis by simp
qed

lemma data_map_bitmap:
  assumes "well_formed c" "x < width c" "y < height c" "k < 4"
  shows "data (map_bitmap f c) ! ((y * width c + x) * 4 + k)
         = f x y k (data c ! ((y * width c + x) * 4 + k))"
proof -
  have "(y * width c + x) * 4 + k < length (data c)"
    using byte_index_bound [OF assms(2-4)] assms(1) by (simp add: well_formed_def)
  then show ?thesis
    using byte_index [OF assms(2) assms(4), of y] by (simp add: map_bitmap_def)
qed

lemma pixel_map_bitmap:
  assumes "well_formed c" "x < width c" "y < height c"
  shows "pixel (map_bitmap f c) x y =
     (case pixel c x y of (r, g, b, a) \<Rightarrow> (f x y 0 r, f x y 1 g, f x y 2 b, f x y 3 a))"
  using data_map_bitmap [OF assms, of 0 f] data_map_bitmap [OF assms, of 1 f]
    data_map_bitmap [OF assms, of 2 f] data_map_bitmap [OF assms, of 3 f]
  by (simp add: pixel_def Let_def)

lemma pixel_clearRect:
  assumes "well_formed c" "x < width c" "y < height c"
  shows "pixel (clearRect rx ry rw rh c) x y =
         (if in_rect rx ry rw rh x y then transparent else pixel c x y)"
  unfolding clearRect_def pixel_map_bitmap [OF assms]
  by (simp add: transparent_def split: prod.splits)

lemma index_recompose: "i div 4 div w * w * 4 + i div 4 mod w * 4 + i mod 4 = i" for i w :: nat
proof -
  have "(i div 4 div w * w + i div 4 mod w) * 4 + i mod 4 = i" by simp
  then show ?thesis unfolding add_mult_distrib .
qed

lemma putImageData_same:
  assumes "well_formed img" "well_formed c" "width c = width img" "height c = height img"
  shows "putImageData img c = img"
proof -
  have "data (putImageData img c) = data img"
  proof (rule nth_equalityI)
    show "length (data (putImageData img c)) = length (data img)"
      using assms by (simp add: putImageData_def well_formed_def)
  next
    fix i assume "i < length (data (putImageData img c))"
    then have i: "i < 4 * width img * height img"
      using assms by (simp add: putImageData_def well_formed_def)
    then have w: "0 < width img" by (cases "width img") simp_all
    have "i div 4 < width img * height img" using i by simp
    then have y: "i div 4 div width img < height img"
      by (simp add: less_mult_imp_div_less mult.commute)
    have x: "i div 4 mod width img < width img" using w by simp
    from x y i assms show "data (putImageData img c) ! i = data img ! i"
      by (simp add: putImageData_def map_bitmap_def well_formed_def index_recompose)
  qed
  moreover have "width (putImageData img c) = width img" "height (putImageData img c) = height img"
    using assms by (simp_all add: putImageData_def)
  ultimately show ?thesis by (intro imageData.equality) simp_all
qed

lemma well_formed_createCanvas: "well_formed (createCanvas w h)"
  by (simp add: createCanvas_def well_formed_def)

lemma compositor_ok_initial: "compositor_ok w h (initial w h)"
  by (simp add: compositor_ok_def initial_def well_formed_createCanvas) (simp add: createCanvas_def)

lemma draw_patch_ok:
  assumes "frame_ok frame"
  shows "\<exists>drawn. draw_patch blend frame cv = Inr drawn
           \<and> width drawn = width cv \<and> height drawn = height cv
           \<and> well_formed drawn = well_formed cv"
  using assms
  by (simp add: draw_patch_def frame_ok_def createImageData_def typed_array_set_def
      drawImage_def Let_def)

lemma dispose_ok:
  assumes "well_formed drawn" "width drawn = w" "height drawn = h"
    and "case prev of None \<Rightarrow> True
         | Some previous \<Rightarrow> well_formed previous \<and> width previous = w \<and> height previous = h"
  shows "compositor_ok w h
           \<lparr>canvas = fst (dispose frame drawn prev), previousImageData = snd (dispose frame drawn prev),
            fullFrames = fs\<rparr>"
  using assms
  by (auto simp: dispose_def compositor_ok_def clearRect_def putImageData_def Let_def
      split: option.splits)

lemma frame_step_ok:
  assumes ok: "compositor_ok w h s" and pos: "0 < w" "0 < h" and f: "frame_ok frame"
  shows "\<exists>drawn. draw_patch blend frame (canvas s) = Inr drawn
           \<and> well_formed drawn \<and> width drawn = w \<and> height drawn = h
           \<and> frame_step blend frame s =
               Inr \<lparr>canvas = fst (dispose frame drawn (previousImageData s)),
                    previousImageData = snd (dispose frame drawn (previousImageData s)),
                    fullFrames = fullFrames s @
                      [\<lparr>frame_imageData = drawn, frame_delay = delay_or_default (delay frame)\<rparr>]\<rparr>"
proof -
  from draw_patch_ok [OF f, of blend "canvas s"] obtain drawn where
    d: "draw_patch blend frame (canvas s) = Inr drawn" "width drawn = width (canvas s)"
       "height drawn = height (canvas s)" "well_formed drawn = well_formed (canvas s)"
    by blast
  with ok have wf: "well_formed drawn" "width drawn = w" "height drawn = h"
    by (simp_all add: compositor_ok_def)
  with pos have g: "getImageData drawn = Inr drawn"
    by (simp add: getImageData_def)
  have "frame_step blend frame s =
               Inr \<lparr>canvas = fst (dispose frame drawn (previousImageData s)),
                    previousImageData = snd (dispose frame drawn (previousImageData s)),
                    fullFrames = fullFrames s @
                      [\<lparr>frame_imageData = drawn, frame_delay = delay_or_default (delay frame)\<rparr>]\<rparr>"
    by (simp add: frame_step_def d(1) g Let_def split: prod.splits)
  with d(1) wf show ?thesis by blast
qed

lemma frame_step_preserves:
  assumes ok: "compositor_ok w h s" and pos: "0 < w" "0 < h" and f: "frame_ok frame"
  shows "\<exists>s'. frame_step blend frame s = Inr s' \<and> compositor_ok w h s'
           \<and> length (fullFrames s') = Suc (length (fullFrames s))
           \<and> (previousImageData s' \<noteq> None \<longleftrightarrow> previousImageData s \<noteq> None \<or> is_keep frame)"
proof -
  from frame_step_ok [OF assms, of blend] obtain drawn where
    d: "well_formed drawn" "width drawn = w" "height drawn = h"
    "frame_step blend frame s =
               Inr \<lparr>canvas = fst (dispose frame drawn (previousImageData s)),
                    previousImageData = snd (dispose frame drawn (previousImageData s)),
                    fullFrames = fullFrames s @
                      [\<lparr>frame_imageData = drawn, frame_delay = delay_or_default (delay frame)\<rparr>]\<rparr>"
    by blast
  have prev: "case previousImageData s of None \<Rightarrow> True
         | Some previous \<Rightarrow> well_formed previous \<and> width previous = w \<and> height previous = h"
    using ok by (simp add: compositor_ok_def)
  have "snd (dispose frame drawn (previousImageData s)) \<noteq> None
        \<longleftrightarrow> previousImageData s \<noteq> None \<or> is_keep frame"
    by (auto simp: dispose_def is_keep_def Let_def split: option.splits)
  with d(4) dispose_ok [OF d(1-3) prev] show ?thesis by simp
qed

lemma composite_loop_snoc:
  "composite_loop blend (fs @ [f]) s =
     (case composite_loop blend fs s of Inl e \<Rightarrow> Inl e | Inr s' \<Rightarrow> frame_step blend f s')"
  by (induction fs arbitrary: s) (simp_all split: sum.splits)

lemma composite_loop_ok:
  assumes ok: "compositor_ok w h s" and pos: "0 < w" "0 < h"
    and fs: "\<forall>f \<in> set fs. frame_ok f"
  shows "\<exists>s'. composite_loop blend fs s = Inr s' \<and> compositor_ok w h s'
           \<and> length (fullFrames s') = length (fullFrames s) + length fs
           \<and> (previousImageData s' \<noteq> None \<longleftrightarrow>
                 previousImageData s \<noteq> None \<or> (\<exists>f \<in> set fs. is_keep f))"
  using fs
proof (induction fs rule: rev_induct)
  case Nil
  with ok show ?case by simp
next
  case (snoc f fs)
  then obtain s1 where s1: "composite_loop blend fs s = Inr s1" "compositor_ok w h s1"
    "length (fullFrames s1) = length (fullFrames s) + length fs"
    "previousImageData s1 \<noteq> None \<longleftrightarrow> previousImageData s \<noteq> None \<or> (\<exists>f \<in> set fs. is_keep f)"
    by auto
  from snoc.prems have "frame_ok f" by simp
  from frame_step_preserves [OF s1(2) pos this, of blend] obtain s2 where
    s2: "frame_step blend f s1 = Inr s2" "compositor_ok w h s2"
    "length (fullFrames s2) = Suc (length (fullFrames s1))"
    "previousImageData s2 \<noteq> None \<longleftrightarrow> previousImageData s1 \<noteq> None \<or> is_keep f"
    by blast
  have "composite_loop blend (fs @ [f]) s = Inr s2"
    by (simp add: composite_loop_snoc s1(1) s2(1))
  moreover have "previousImageData s2 \<noteq> None \<longleftrightarrow>
                 previousImageData s \<noteq> None \<or> (\<exists>f \<in> set (fs @ [f]). is_keep f)"
    using s1(4) s2(4) by auto
  ultimately show ?case using s2(2,3) s1(3) by simp
qed

lemma composite_loop_outputs:
  assumes ok: "compositor_ok w h s" and pos: "0 < w" "0 < h"
    and fs: "\<forall>f \<in> set fs. frame_ok f"
  shows "\<exists>s' outs. composite_loop blend fs s = Inr s' \<and> compositor_ok w h s'
           \<and> fullFrames s' = fullFrames s @ outs \<and> length outs = length fs
           \<and> (\<forall>i < length fs.
                 frame_delay (outs ! i) = delay_or_default (delay (fs ! i))
                 \<and> (\<exists>si. composite_loop blend (take i fs) s = Inr si
                        \<and> draw_patch blend (fs ! i) (canvas si) = Inr (frame_imageData (outs ! i))))"
  using fs
proof (induction fs rule: rev_induct)
  case Nil
  with ok show ?case by simp
next
  case (snoc f fs)
  then obtain s1 outs1 where s1: "composite_loop blend fs s = Inr s1" "compositor_ok w h s1"
    "fullFrames s1 = fullFrames s @ outs1" "length outs1 = length fs"
    and each: "\<forall>i < length fs.
                 frame_delay (outs1 ! i) = delay_or_default (delay (fs ! i))
                 \<and> (\<exists>si. composite_loop blend (take i fs) s = Inr si
                        \<and> draw_patch blend (fs ! i) (canvas si) = Inr (frame_imageData (outs1 ! i)))"
    by auto
  from snoc.prems have "frame_ok f" by simp
  from frame_step_ok [OF s1(2) pos this, of blend] obtain drawn where
    d: "draw_patch blend f (canvas s1) = Inr drawn"
       "well_formed drawn" "width drawn = w" "height drawn = h"
       "frame_step blend f s1 =
               Inr \<lparr>canvas = fst (dispose f drawn (previousImageData s1)),
                    previousImageData = snd (dispose f drawn (previousImageData s1)),
                    fullFrames = fullFrames s1 @
                      [\<lparr>frame_imageData = drawn, frame_delay = delay_or_default (delay f)\<rparr>]\<rparr>"
    by blast
  let ?new = "\<lparr>frame_imageData = drawn, frame_delay = delay_or_default (delay f)\<rparr>"
  let ?s2 = "\<lparr>canvas = fst (dispose f drawn (previousImageData s1)),
                    previousImageData = snd (dispose f drawn (previousImageData s1)),
                    fullFrames = fullFrames s1 @ [?new]\<rparr>"
  have prev: "case previousImageData s1 of None \<Rightarrow> True
         | Some previous \<Rightarrow> well_formed previous \<and> width previous = w \<and> height previous = h"
    using s1(2) by (simp add: compositor_ok_def)
  have run: "composite_loop blend (fs @ [f]) s = Inr ?s2"
    by (simp add: composite_loop_snoc s1(1) d(5))
  have ok2: "compositor_ok w h ?s2"
    by (rule dispose_ok [OF d(2-4) prev])
  have out: "fullFrames ?s2 = fullFrames s @ (outs1 @ [?new])" "length (outs1 @ [?new]) = length (fs @ [f])"
    using s1(3,4) by simp_all
  have "frame_delay ((outs1 @ [?new]) ! i) = delay_or_default (delay ((fs @ [f]) ! i))
        \<and> (\<exists>si. composite_loop blend (take i (fs @ [f])) s = Inr si
               \<and> draw_patch blend ((fs @ [f]) ! i) (canvas si)
                   = Inr (frame_imageData ((outs1 @ [?new]) ! i)))"
    if "i < length (fs @ [f])" for i
  proof (cases "i < length fs")
    case True
    with each s1(4) show ?thesis by (simp add: nth_append)
  next
    case False
    with that have "i = length fs" by simp
    with s1 d(1) show ?thesis by (simp add: nth_append)
  qed
  with run ok2 out show ?case by blast
qed

lemma delay_or_default_nonneg:
  "(\<forall>n. d = Some n \<longrightarrow> 0 \<le> n) \<Longrightarrow>
   delay_or_default d = (case d of None \<Rightarrow> 100 | Some n \<Rightarrow> if 0 < n then n else 100)
   \<and> 1 \<le> delay_or_default d"
  by (auto simp: delay_or_default_def split: option.splits)

text \<open>
  Claim C5. For every sequence of acceptable raw frames whose delays, where given, are
  not negative, on a canvas of positive size, \<open>buildFullFrames\<close> returns one frame per
  raw frame, in the same order: the frame at index \<open>i\<close> is the canvas as it stands after
  the patch of raw frame \<open>i\<close> is drawn on the state the earlier frames left, and its delay
  is the raw frame's delay when that is positive and 100 when it is zero or not given,
  so at least 1.
\<close>

theorem buildFullFrames_one_per_frame:
  assumes "0 < w" "0 < h" and "\<forall>f \<in> set rawFrames. frame_ok f"
    and "\<forall>f \<in> set rawFrames. \<forall>d. delay f = Some d \<longrightarrow> 0 \<le> d"
  shows "\<exists>out. buildFullFrames blend rawFrames w h = Inr out \<and> length out = length rawFrames
     \<and> (\<forall>i < length rawFrames.
          frame_delay (out ! i) =
            (case delay (rawFrames ! i) of None \<Rightarrow> 100 | Some d \<Rightarrow> if 0 < d then d else 100)
          \<and> 1 \<le> frame_delay (out ! i)
          \<and> (\<exists>s. composite_loop blend (take i rawFrames) (initial w h) = Inr s
                 \<and> draw_patch blend (rawFrames ! i) (canvas s) = Inr (frame_imageData (out ! i))))"
proof -
  from composite_loop_outputs [OF compositor_ok_initial assms(1-3), of blend]
  obtain s' outs where r: "composite_loop blend rawFrames (initial w h) = Inr s'"
    "fullFrames s' = fullFrames (initial w h) @ outs" "length outs = length rawFrames"
    and each: "\<forall>i < length rawFrames.
                 frame_delay (outs ! i) = delay_or_default (delay (rawFrames ! i))
                 \<and> (\<exists>si. composite_loop blend (take i rawFrames) (initial w h) = Inr si
                        \<and> draw_patch blend (rawFrames ! i) (canvas si)
                            = Inr (frame_imageData (outs ! i)))"
    by blast
  have out: "buildFullFrames blend rawFrames w h = Inr outs"
    using r(1,2) by (simp add: buildFullFrames_def initial_def)
  have "frame_delay (outs ! i) =
            (case delay (rawFrames ! i) of None \<Rightarrow> 100 | Some d \<Rightarrow> if 0 < d then d else 100)
          \<and> 1 \<le> frame_delay (outs ! i)
          \<and> (\<exists>s. composite_loop blend (take i rawFrames) (initial w h) = Inr s
                 \<and> draw_patch blend (rawFrames ! i) (canvas s) = Inr (frame_imageData (outs ! i)))"
    if i: "i < length rawFrames" for i
  proof -
    from i assms(4) have "\<forall>n. delay (rawFrames ! i) = Some n \<longrightarrow> 0 \<le> n"
      using nth_mem by blast
    from delay_or_default_nonneg [OF this] each i show ?thesis by simp
  qed
  with out r(3) show ?thesis by blast
qed

theorem buildFullFrames_one_per_frame_witness:
  "\<exists>out. buildFullFrames spec_blend
      [\<lparr>dims = \<lparr>dims_left = 0, dims_top = 0, dims_width = 1, dims_height = 1\<rparr>,
         patch = [255, 0, 0, 255], delay = Some 0, disposalType = Some 2\<rparr>,
       \<lparr>dims = \<lparr>dims_left = 1, dims_top = 0, dims_width = 1, dims_height = 1\<rparr>,
         patch = [0, 0, 255, 255], delay = Some 30, disposalType = None\<rparr>] 2 1 = Inr out
     \<and> length out = 2 \<and> frame_delay (out ! 0) = 100 \<and> frame_delay (out ! 1) = 30"
proof -
  let ?A = "\<lparr>dims = \<lparr>dims_left = 0, dims_top = 0, dims_width = 1, dims_height = 1\<rparr>,
         patch = [255, 0, 0, 255], delay = Some 0, disposalType = Some 2\<rparr>"
  let ?B = "\<lparr>dims = \<lparr>dims_left = 1, dims_top = 0, dims_width = 1, dims_height = 1\<rparr>,
         patch = [0, 0, 255, 255], delay = Some 30, disposalType = None\<rparr>"
  have ok: "\<forall>f \<in> set [?A, ?B]. frame_ok f" by (simp add: frame_ok_def)
  have delays: "\<forall>f \<in> set [?A, ?B]. \<forall>d. delay f = Some d \<longrightarrow> 0 \<le> d" by auto
  have pos: "(0 :: nat) < 2" "(0 :: nat) < 1" by simp_all
  from buildFullFrames_one_per_frame [OF pos ok delays, of spec_blend]
  obtain out where
    r: "buildFullFrames spec_blend [?A, ?B] 2 1 = Inr out" "length out = length [?A, ?B]"
    and each: "\<forall>i < length [?A, ?B].
          frame_delay (out ! i) =
            (case delay ([?A, ?B] ! i) of None \<Rightarrow> 100 | Some d \<Rightarrow> if 0 < d then d else 100)"
    by blast
  from each have "frame_delay (out ! 0) = 100" by auto
  moreover from each have "frame_delay (out ! 1) = 30" by auto
  ultimately show ?thesis using r by auto
qed

lemma composite_loop_last_step:
  assumes pos: "0 < w" "0 < h" and fs: "\<forall>f \<in> set earlier. frame_ok f" and f: "frame_ok F"
  shows "\<exists>s drawn. composite_loop blend earlier (initial w h) = Inr s
      \<and> compositor_ok w h s
      \<and> (previousImageData s \<noteq> None \<longleftrightarrow> (\<exists>f \<in> set earlier. is_keep f))
      \<and> draw_patch blend F (canvas s) = Inr drawn
      \<and> well_formed drawn \<and> width drawn = w \<and> height drawn = h
      \<and> composite_loop blend (earlier @ [F]) (initial w h) =
          Inr \<lparr>canvas = fst (dispose F drawn (previousImageData s)),
               previousImageData = snd (dispose F drawn (previousImageData s)),
               fullFrames = fullFrames s @
                 [\<lparr>frame_imageData = drawn, frame_delay = delay_or_default (delay F)\<rparr>]\<rparr>"
proof -
  from composite_loop_ok [OF compositor_ok_initial pos fs, of blend] obtain s where
    s: "composite_loop blend earlier (initial w h) = Inr s" "compositor_ok w h s"
       "previousImageData s \<noteq> None \<longleftrightarrow> (\<exists>f \<in> set earlier. is_keep f)"
    by (auto simp: initial_def)
  from frame_step_ok [OF s(2) pos f, of blend] obtain drawn where
    d: "draw_patch blend F (canvas s) = Inr drawn"
       "well_formed drawn" "width drawn = w" "height drawn = h"
       "frame_step blend F s =
               Inr \<lparr>canvas = fst (dispose F drawn (previousImageData s)),
                    previousImageData = snd (dispose F drawn (previousImageData s)),
                    fullFrames = fullFrames s @
                      [\<lparr>frame_imageData = drawn, frame_delay = delay_or_default (delay F)\<rparr>]\<rparr>"
    by blast
  have "composite_loop blend (earlier @ [F]) (initial w h) =
          Inr \<lparr>canvas = fst (dispose F drawn (previousImageData s)),
               previousImageData = snd (dispose F drawn (previousImageData s)),
               fullFrames = fullFrames s @
                 [\<lparr>frame_imageData = drawn, frame_delay = delay_or_default (delay F)\<rparr>]\<rparr>"
    by (simp add: composite_loop_snoc s(1) d(5))
  with s d(1-4) show ?thesis by blast
qed

text \<open>
  Claim C2. Whatever acceptable frames came earlier, a frame \<open>F\<close> with disposal 2 is
  drawn and captured, and then the canvas is the captured one with the pixels of the
  rectangle \<open>(F.left, F.top, F.width, F.height)\<close> set to transparent zero and every other
  pixel unchanged; the snapshot is the one from before the frame.
\<close>

theorem restore_background_clears_frame_rectangle:
  assumes "0 < w" "0 < h" and "\<forall>f \<in> set earlier. frame_ok f" and "frame_ok F"
    and "disposalType F = Some 2"
  shows "\<exists>s drawn s'.
        composite_loop blend earlier (initial w h) = Inr s
      \<and> draw_patch blend F (canvas s) = Inr drawn
      \<and> composite_loop blend (earlier @ [F]) (initial w h) = Inr s'
      \<and> fullFrames s' = fullFrames s @
           [\<lparr>frame_imageData = drawn, frame_delay = delay_or_default (delay F)\<rparr>]
      \<and> previousImageData s' = previousImageData s
      \<and> width (canvas s') = w \<and> height (canvas s') = h \<and> well_formed (canvas s')
      \<and> (\<forall>x < w. \<forall>y < h.
            pixel (canvas s') x y =
              (if in_rect (dims_left (dims F)) (dims_top (dims F))
                          (dims_width (dims F)) (dims_height (dims F)) x y
               then transparent else pixel drawn x y))"
proof -
  from composite_loop_last_step [OF assms(1-4), of blend] obtain s drawn where
    s: "composite_loop blend earlier (initial w h) = Inr s"
       "draw_patch blend F (canvas s) = Inr drawn"
       "well_formed drawn" "width drawn = w" "height drawn = h"
       "composite_loop blend (earlier @ [F]) (initial w h) =
          Inr \<lparr>canvas = fst (dispose F drawn (previousImageData s)),
               previousImageData = snd (dispose F drawn (previousImageData s)),
               fullFrames = fullFrames s @
                 [\<lparr>frame_imageData = drawn, frame_delay = delay_or_default (delay F)\<rparr>]\<rparr>"
    by blast
  let ?cleared = "clearRect (dims_left (dims F)) (dims_top (dims F))
                    (dims_width (dims F)) (dims_height (dims F)) drawn"
  have disp: "dispose F drawn (previousImageData s) = (?cleared, previousImageData s)"
    using assms(5) by (simp add: dispose_def Let_def)
  have dims: "width ?cleared = w" "height ?cleared = h" "well_formed ?cleared"
    using s(3-5) by (simp_all add: clearRect_def)
  have px: "\<forall>x < w. \<forall>y < h.
            pixel ?cleared x y =
              (if in_rect (dims_left (dims F)) (dims_top (dims F))
                          (dims_width (dims F)) (dims_height (dims F)) x y
               then transparent else pixel drawn x y)"
    using pixel_clearRect [OF s(3)] s(4,5) by simp
  let ?s' = "\<lparr>canvas = ?cleared, previousImageData = previousImageData s,
               fullFrames = fullFrames s @
                 [\<lparr>frame_imageData = drawn, frame_delay = delay_or_default (delay F)\<rparr>]\<rparr>"
  have "composite_loop blend (earlier @ [F]) (initial w h) = Inr ?s'"
    using s(6) disp by simp
  with s(1,2) dims px show ?thesis
    by (intro exI [of _ s] exI [of _ drawn] exI [of _ ?s']) simp
qed

theorem restore_background_clears_frame_rectangle_witness:
  "frame_ok \<lparr>dims = \<lparr>dims_left = 0, dims_top = 0, dims_width = 1, dims_height = 1\<rparr>,
             patch = [255, 0, 0, 255], delay = Some 0, disposalType = Some 2\<rparr>
   \<and> (\<exists>s'. composite_loop spec_blend
               ([] @ [\<lparr>dims = \<lparr>dims_left = 0, dims_top = 0, dims_width = 1, dims_height = 1\<rparr>,
                       patch = [255, 0, 0, 255], delay = Some 0, disposalType = Some 2\<rparr>])
               (initial 2 1) = Inr s'
          \<and> previousImageData s' = None
          \<and> pixel (canvas s') 0 0 = transparent)"
proof -
  let ?F = "\<lparr>dims = \<lparr>dims_left = 0, dims_top = 0, dims_width = 1, dims_height = 1\<rparr>,
             patch = [255, 0, 0, 255], delay = Some 0, disposalType = Some 2\<rparr>"
  have ok: "frame_ok ?F" by (simp add: frame_ok_def)
  have none: "\<forall>f \<in> set []. frame_ok f" by simp
  have pos: "(0 :: nat) < 2" "(0 :: nat) < 1" by simp_all
  have d: "disposalType ?F = Some 2" by simp
  from restore_background_clears_frame_rectangle [OF pos none ok d, of spec_blend]
  obtain s drawn s' where
    r: "composite_loop spec_blend [] (initial 2 1) = Inr s"
       "composite_loop spec_blend ([] @ [?F]) (initial 2 1) = Inr s'"
       "previousImageData s' = previousImageData s"
       "\<forall>x < 2. \<forall>y < 1. pixel (canvas s') x y =
              (if in_rect (dims_left (dims ?F)) (dims_top (dims ?F))
                          (dims_width (dims ?F)) (dims_height (dims ?F)) x y
               then transparent else pixel drawn x y)"
    by blast
  from r(1) have "s = initial 2 1" by simp
  with r(3) have p: "previousImageData s' = None" by (simp add: initial_def)
  from r(4) have "pixel (canvas s') 0 0 = transparent" by (simp add: in_rect_def)
  with ok r(2) p show ?thesis by blast
qed

text \<open>
  Claim C3. Whatever acceptable frames came earlier, a frame \<open>F\<close> with disposal 3 is
  drawn and captured, and then, if there is a snapshot, the canvas is that snapshot, and
  if there is none the canvas stays as drawn: the state before \<open>F\<close> with the patch of
  \<open>F\<close> on it. A snapshot exists exactly when an earlier frame kept the canvas (a
  disposal other than 2 and 3). The snapshot itself is not changed.
\<close>

theorem restore_previous_uses_snapshot:
  assumes "0 < w" "0 < h" and "\<forall>f \<in> set earlier. frame_ok f" and "frame_ok F"
    and "disposalType F = Some 3"
  shows "\<exists>s drawn s'.
        composite_loop blend earlier (initial w h) = Inr s
      \<and> draw_patch blend F (canvas s) = Inr drawn
      \<and> composite_loop blend (earlier @ [F]) (initial w h) = Inr s'
      \<and> fullFrames s' = fullFrames s @
           [\<lparr>frame_imageData = drawn, frame_delay = delay_or_default (delay F)\<rparr>]
      \<and> previousImageData s' = previousImageData s
      \<and> (previousImageData s \<noteq> None \<longleftrightarrow> (\<exists>f \<in> set earlier. is_keep f))
      \<and> (case previousImageData s of
            Some previous \<Rightarrow> canvas s' = previous
          | None \<Rightarrow> canvas s' = drawn)"
proof -
  from composite_loop_last_step [OF assms(1-4), of blend] obtain s drawn where
    s: "composite_loop blend earlier (initial w h) = Inr s"
       "compositor_ok w h s"
       "previousImageData s \<noteq> None \<longleftrightarrow> (\<exists>f \<in> set earlier. is_keep f)"
       "draw_patch blend F (canvas s) = Inr drawn"
       "well_formed drawn" "width drawn = w" "height drawn = h"
       "composite_loop blend (earlier @ [F]) (initial w h) =
          Inr \<lparr>canvas = fst (dispose F drawn (previousImageData s)),
               previousImageData = snd (dispose F drawn (previousImageData s)),
               fullFrames = fullFrames s @
                 [\<lparr>frame_imageData = drawn, frame_delay = delay_or_default (delay F)\<rparr>]\<rparr>"
    by blast
  let ?s' = "\<lparr>canvas = fst (dispose F drawn (previousImageData s)),
               previousImageData = snd (dispose F drawn (previousImageData s)),
               fullFrames = fullFrames s @
                 [\<lparr>frame_imageData = drawn, frame_delay = delay_or_default (delay F)\<rparr>]\<rparr>"
  have snap: "snd (dispose F drawn (previousImageData s)) = previousImageData s"
    using assms(5) by (simp add: dispose_def Let_def split: option.splits)
  have cv: "case previousImageData s of
            Some previous \<Rightarrow> fst (dispose F drawn (previousImageData s)) = previous
          | None \<Rightarrow> fst (dispose F drawn (previousImageData s)) = drawn"
  proof (cases "previousImageData s")
    case None
    with assms(5) show ?thesis by (simp add: dispose_def Let_def)
  next
    case (Some previous)
    with s(2) have "well_formed previous" "width previous = w" "height previous = h"
      by (simp_all add: compositor_ok_def)
    with s(5-7) have "putImageData previous drawn = previous"
      by (intro putImageData_same) simp_all
    with Some assms(5) show ?thesis by (simp add: dispose_def Let_def)
  qed
  have run: "composite_loop blend (earlier @ [F]) (initial w h) = Inr ?s'"
    by (rule s(8))
  have frames: "fullFrames ?s' = fullFrames s @
           [\<lparr>frame_imageData = drawn, frame_delay = delay_or_default (delay F)\<rparr>]"
    by simp
  have prev: "previousImageData ?s' = previousImageData s"
    using snap by simp
  have cv': "case previousImageData s of
            Some previous \<Rightarrow> canvas ?s' = previous
          | None \<Rightarrow> canvas ?s' = drawn"
    using cv by (simp split: option.splits)
  from s(1) s(4) run frames prev s(3) cv' show ?thesis by blast
qed

theorem restore_previous_uses_snapshot_witness:
  "frame_ok \<lparr>dims = \<lparr>dims_left = 0, dims_top = 0, dims_width = 2, dims_height = 1\<rparr>,
             patch = [255, 0, 0, 255, 255, 0, 0, 255], delay = Some 50, disposalType = Some 1\<rparr>
   \<and> frame_ok \<lparr>dims = \<lparr>dims_left = 1, dims_top = 0, dims_width = 1, dims_height = 1\<rparr>,
             patch = [0, 0, 255, 255], delay = None, disposalType = Some 3\<rparr>
   \<and> (\<exists>s s'. composite_loop spec_blend
               [\<lparr>dims = \<lparr>dims_left = 0, dims_top = 0, dims_width = 2, dims_height = 1\<rparr>,
                  patch = [255, 0, 0, 255, 255, 0, 0, 255], delay = Some 50, disposalType = Some 1\<rparr>]
               (initial 2 1) = Inr s
          \<and> composite_loop spec_blend
               ([\<lparr>dims = \<lparr>dims_left = 0, dims_top = 0, dims_width = 2, dims_height = 1\<rparr>,
                   patch = [255, 0, 0, 255, 255, 0, 0, 255], delay = Some 50, disposalType = Some 1\<rparr>]
                @ [\<lparr>dims = \<lparr>dims_left = 1, dims_top = 0, dims_width = 1, dims_height = 1\<rparr>,
                     patch = [0, 0, 255, 255], delay = None, disposalType = Some 3\<rparr>])
               (initial 2 1) = Inr s'
          \<and> previousImageData s = Some (canvas s'))"
proof -
  let ?K = "\<lparr>dims = \<lparr>dims_left = 0, dims_top = 0, dims_width = 2, dims_height = 1\<rparr>,
             patch = [255, 0, 0, 255, 255, 0, 0, 255], delay = Some 50, disposalType = Some 1\<rparr>"
  let ?F = "\<lparr>dims = \<lparr>dims_left = 1, dims_top = 0, dims_width = 1, dims_height = 1\<rparr>,
             patch = [0, 0, 255, 255], delay = None, disposalType = Some 3\<rparr>"
  have okK: "frame_ok ?K" and okF: "frame_ok ?F" by (simp_all add: frame_ok_def)
  have earlier: "\<forall>f \<in> set [?K]. frame_ok f" using okK by simp
  have pos: "(0 :: nat) < 2" "(0 :: nat) < 1" by simp_all
  have d: "disposalType ?F = Some 3" by simp
  from restore_previous_uses_snapshot [OF pos earlier okF d, of spec_blend]
  obtain s drawn s' where
    r: "composite_loop spec_blend [?K] (initial 2 1) = Inr s"
       "composite_loop spec_blend ([?K] @ [?F]) (initial 2 1) = Inr s'"
       "previousImageData s \<noteq> None \<longleftrightarrow> (\<exists>f \<in> set [?K]. is_keep f)"
       "case previousImageData s of Some previous \<Rightarrow> canvas s' = previous
        | None \<Rightarrow> canvas s' = drawn"
    by blast
  have "is_keep ?K" by (simp add: is_keep_def)
  with r(3) obtain previous where "previousImageData s = Some previous" by auto
  with r(4) have "previousImageData s = Some (canvas s')" by simp
  with okK okF r(1,2) show ?thesis by blast
qed

text \<open>
  Claim C9, as stated, fails: on the empty sequence \<open>buildFullFrames\<close> raises nothing
  and returns the empty list.
\<close>

theorem buildFullFrames_empty_returns: "buildFullFrames spec_blend [] 4 4 = Inr []"
  by (simp add: buildFullFrames_def initial_def)

text \<open>
  Claim C9, amended. \<open>buildFullFrames\<close> returns the empty list for the empty sequence;
  it is its caller \<open>parseGifFromBuffer\<close> that fails, with the error
  \<open>No frames found in GIF\<close>, when the decoder finds no frame, before any compositing.
\<close>

theorem empty_sequence_rejected_by_parser:
  "buildFullFrames blend [] w h = Inr []
   \<and> (parseGifBuffer buffer = [] \<longrightarrow>
        parseGifFromBuffer parseGifBuffer blend buffer = Inl (Error ''No frames found in GIF''))"
  by (simp add: buildFullFrames_def initial_def parseGifFromBuffer_def)

theorem empty_sequence_rejected_by_parser_witness:
  "parseGifFromBuffer (\<lambda>buffer :: 8 word list. []) spec_blend [71, 73, 70]
     = Inl (Error ''No frames found in GIF'')"
  using empty_sequence_rejected_by_parser [of spec_blend 0 0 "\<lambda>buffer :: 8 word list. []" "[71, 73, 70]"]
  by simp

end
